theory Spec2Isabelle
  imports Main "HOL-Library.Product_Lexorder"
begin

section \<open>Arc layout of a DMRS graph (pydmrs/visualization/static/dmrs.js)\<close>

text \<open>
  The development embeds the layout part of \<^verbatim>\<open>dmrs.js\<close>: \<^verbatim>\<open>prepareGraph\<close> with its
  helper \<^verbatim>\<open>nextAvailableLevel\<close>, the lane arithmetic of \<^verbatim>\<open>getPathSpec\<close>, the label-set
  computation of \<^verbatim>\<open>updateHighlights\<close>, and the link records that \<^verbatim>\<open>parseXmlDMRS\<close>
  builds.  JavaScript objects that are mutated in place become records that are passed
  in and returned; a property that holds no number (it is absent, \<^verbatim>\<open>undefined\<close> or
  \<^verbatim>\<open>NaN\<close>, or holds an object) is \<open>None\<close>.
\<close>

subsection \<open>JavaScript values\<close>

text \<open>
  Node identifiers, role names and post tags are strings (XML attribute values and text
  contents).  Levels are small integers, modelled as \<open>int\<close>; node indices are \<open>nat\<close>.
  The only exception the modelled code can raise is a \<^verbatim>\<open>TypeError\<close>, from reading a
  property of \<^verbatim>\<open>undefined\<close>.
\<close>

datatype error = TypeError

text \<open>
  A string stands for its UTF-8 encoding, a list of bytes.  The code compares strings
  for equality, uses them as property keys, and inspects the characters of numeric
  literals and of \<^verbatim>\<open>"H"\<close>; two strings are equal exactly when their encodings are, and
  the characters inspected are single bytes.

  \<^verbatim>\<open>d.start == 0\<close> compares a string with a number: the string is converted by
  \<^verbatim>\<open>StringToNumber\<close> and the comparison holds when the number is zero.  The conversion
  drops the white space and line terminator characters at both ends: U+0009 to U+000D,
  U+0020, U+00A0, U+1680, U+2000 to U+200A, U+2028, U+2029, U+202F, U+205F, U+3000
  and U+FEFF, listed below by their encodings.  The empty string is 0; otherwise the
  string must be a signed decimal literal with optional fraction and exponent, or an
  unsigned binary, octal or hexadecimal literal (anything else is \<^verbatim>\<open>NaN\<close>).

  A decimal literal with the digits \<open>m\<close> of its integer and fraction parts and the
  exponent \<open>k\<close> (the written exponent less the number of fraction digits) denotes
  \<open>m * 10 ^ k\<close>, which is rounded to the nearest double, ties to even.  The smallest
  positive double is \<open>2 ^ - 1074\<close>, so the result is zero exactly when \<open>m = 0\<close> or
  \<open>m * 10 ^ k \<le> 2 ^ - 1075\<close>, that is \<open>k < 0\<close> and \<open>m * 2 ^ 1075 \<le> 10 ^ - k\<close>.  (The
  literal is converted exactly, as the engines do; the standard also allows digits
  after the twentieth significant one to be replaced.)  A literal in another radix is
  an integer, zero exactly when all its digits are \<open>0\<close>.
\<close>

definition whiteSpaces :: "string list" where
  "whiteSpaces =
     [[CHR 0x09], [CHR 0x0A], [CHR 0x0B], [CHR 0x0C], [CHR 0x0D], [CHR 0x20],
      [CHR 0xC2, CHR 0xA0], [CHR 0xE1, CHR 0x9A, CHR 0x80],
      [CHR 0xE2, CHR 0x80, CHR 0x80], [CHR 0xE2, CHR 0x80, CHR 0x81],
      [CHR 0xE2, CHR 0x80, CHR 0x82], [CHR 0xE2, CHR 0x80, CHR 0x83],
      [CHR 0xE2, CHR 0x80, CHR 0x84], [CHR 0xE2, CHR 0x80, CHR 0x85],
      [CHR 0xE2, CHR 0x80, CHR 0x86], [CHR 0xE2, CHR 0x80, CHR 0x87],
      [CHR 0xE2, CHR 0x80, CHR 0x88], [CHR 0xE2, CHR 0x80, CHR 0x89],
      [CHR 0xE2, CHR 0x80, CHR 0x8A], [CHR 0xE2, CHR 0x80, CHR 0xA8],
      [CHR 0xE2, CHR 0x80, CHR 0xA9], [CHR 0xE2, CHR 0x80, CHR 0xAF],
      [CHR 0xE2, CHR 0x81, CHR 0x9F], [CHR 0xE3, CHR 0x80, CHR 0x80],
      [CHR 0xEF, CHR 0xBB, CHR 0xBF]]"

text \<open>
  \<open>stripFront ws s\<close> drops from the front of \<open>s\<close> every leading occurrence of an entry
  of \<open>ws\<close> (no entry of \<open>whiteSpaces\<close> is empty).  Trimming drops the white space at the
  front, and at the end by doing the same on the reversed string: in an encoding a
  white space sequence at the end is a white space character, since each sequence
  starts with the byte that begins a character.
\<close>

function stripFront :: "string list \<Rightarrow> string \<Rightarrow> string" where
  "stripFront ws s =
     (case find (\<lambda>w. w \<noteq> [] \<and> take (length w) s = w) ws of
        None \<Rightarrow> s
      | Some w \<Rightarrow> stripFront ws (drop (length w) s))"
  by pat_completeness auto

termination stripFront
proof (relation "measure (\<lambda>(ws, s). length s)")
  show "wf (measure (\<lambda>(ws, s). length s))" by simp
next
  fix ws :: "string list" and s x2 :: string
  assume "find (\<lambda>w. w \<noteq> [] \<and> take (length w) s = w) ws = Some x2"
  then have w: "x2 \<noteq> [] \<and> take (length x2) s = x2" by (auto simp: find_Some_iff)
  then have "length (take (length x2) s) = length x2" by simp
  then have "length x2 \<le> length s" by simp
  moreover have "0 < length x2" using w by simp
  ultimately have "length s - length x2 < length s" by linarith
  then show "((ws, drop (length x2) s), (ws, s)) \<in> measure (\<lambda>(ws, s). length s)" by simp
qed

definition trim :: "string \<Rightarrow> string" where
  "trim s = rev (stripFront (map rev whiteSpaces) (rev (stripFront whiteSpaces s)))"

definition isDigit :: "char \<Rightarrow> bool" where
  "isDigit c = (c \<in> set ''0123456789'')"

definition digitVal :: "char \<Rightarrow> int" where
  "digitVal c = int (length (takeWhile (\<lambda>d. d \<noteq> c) ''0123456789''))"

definition digitsVal :: "string \<Rightarrow> int" where
  "digitsVal ds = foldl (\<lambda>n c. 10 * n + digitVal c) 0 ds"

definition dropSign :: "string \<Rightarrow> string" where
  "dropSign s = (case s of [] \<Rightarrow> [] | c # r \<Rightarrow> if c = CHR ''+'' \<or> c = CHR ''-'' then r else s)"

definition exponentOk :: "string \<Rightarrow> bool" where
  "exponentOk s =
     (case s of
        [] \<Rightarrow> True
      | c # r \<Rightarrow> (c = CHR ''e'' \<or> c = CHR ''E'') \<and> dropSign r \<noteq> [] \<and> list_all isDigit (dropSign r))"

definition exponentVal :: "string \<Rightarrow> int" where
  "exponentVal s =
     (case s of
        [] \<Rightarrow> 0
      | c # r \<Rightarrow>
          (case r of
             [] \<Rightarrow> 0
           | sg # ds \<Rightarrow> if sg = CHR ''-'' then - digitsVal ds else digitsVal (dropSign r)))"

definition roundsToZero :: "int \<Rightarrow> int \<Rightarrow> bool" where
  "roundsToZero m k =
     (if m = 0 then True
      else if k < 0 then m * 2 ^ 1075 \<le> 10 ^ nat (- k)
      else False)"

definition decimalZero :: "string \<Rightarrow> bool" where
  "decimalZero s =
     (let u = dropSign s;
          ip = takeWhile isDigit u;
          r = dropWhile isDigit u;
          fp = (case r of [] \<Rightarrow> [] | c # r' \<Rightarrow> if c = CHR ''.'' then takeWhile isDigit r' else []);
          e = (case r of [] \<Rightarrow> [] | c # r' \<Rightarrow> if c = CHR ''.'' then dropWhile isDigit r' else r)
      in (ip \<noteq> [] \<or> fp \<noteq> []) \<and> exponentOk e \<and>
         roundsToZero (digitsVal (ip @ fp)) (exponentVal e - int (length fp)))"

definition radixZero :: "string \<Rightarrow> bool" where
  "radixZero s =
     (case s of
        z # x # ds \<Rightarrow> z = CHR ''0'' \<and> x \<in> set ''bBoOxX'' \<and> ds \<noteq> [] \<and> list_all (\<lambda>c. c = CHR ''0'') ds
      | _ \<Rightarrow> False)"

definition looseEqZero :: "string \<Rightarrow> bool" where
  "looseEqZero s = (let t = trim s in t = [] \<or> decimalZero t \<or> radixZero t)"

text \<open>
  \<^verbatim>\<open>toUpperCase\<close> is used in one place, \<^verbatim>\<open>d.post.toUpperCase() == "H"\<close>.  The model maps
  the letters \<open>a\<close> to \<open>z\<close> to \<open>A\<close> to \<open>Z\<close> and leaves every other byte as it is.  On
  letters outside that range the result is not that of \<^verbatim>\<open>toUpperCase\<close>, but whether it
  equals \<^verbatim>\<open>"H"\<close> is the same: \<open>h\<close> and \<open>H\<close> are the only strings whose upper case is \<open>H\<close>.
\<close>

definition upperChar :: "char \<Rightarrow> char" where
  "upperChar c =
     (case map_of (zip ''abcdefghijklmnopqrstuvwxyz'' ''ABCDEFGHIJKLMNOPQRSTUVWXYZ'') c of
        None \<Rightarrow> c
      | Some u \<Rightarrow> u)"

definition toUpperCase :: "string \<Rightarrow> string" where
  "toUpperCase s = map upperChar s"

subsection \<open>Nodes, links and the graph\<close>

text \<open>
  A link object carries the six properties \<^verbatim>\<open>parseXmlDMRS\<close> gives it (\<open>source\<close>,
  \<open>target\<close>, \<open>start\<close>, \<open>end\<close>, \<open>rargname\<close>, \<open>post\<close>) and the three \<^verbatim>\<open>prepareGraph\<close>
  adds (\<open>distance\<close>, \<open>dir\<close>, \<open>level\<close>).  \<open>dir\<close> is written on every link before it is
  read, so the value a record carries on entry is irrelevant.  \<open>distance\<close> is \<open>None\<close>
  when the property is absent or \<^verbatim>\<open>NaN\<close>.  \<open>source\<close> and \<open>target\<close> are \<open>None\<close> when the
  property holds no node index: \<^verbatim>\<open>undefined\<close>, or the object that a look-up in
  \<^verbatim>\<open>nodeIdx\<close> inherits (see \<open>objectPut\<close> below).
\<close>

record node =
  id_node :: string

record link =
  source :: "nat option"
  target :: "nat option"
  start :: string
  end' :: string
  rargname :: string
  post :: string
  distance :: "nat option"
  dir :: int
  level :: "int option"

record graph =
  nodes :: "node list"
  links :: "link list"
  maxTopLevel :: int
  maxBottomLevel :: int
  sticky :: bool

text \<open>
  \<^verbatim>\<open>levelIdx\<close> maps the key \<^verbatim>\<open>"i,i+1"\<close> of the gap between nodes \<open>i\<close> and \<open>i + 1\<close>
  to an object whose keys are the occupied levels.  The key is represented by \<open>i\<close>, the
  object by the list of its keys.
\<close>

type_synonym levelIdx = "nat \<rightharpoonup> int list"

text \<open>
  \<^verbatim>\<open>node_map\<close> and \<^verbatim>\<open>nodeIdx\<close> are plain objects (\<^verbatim>\<open>{}\<close>) used as maps from identifiers to
  node indices, so they inherit the properties of \<^verbatim>\<open>Object.prototype\<close>.  An assignment
  \<^verbatim>\<open>obj[k] = i\<close> stores \<open>i\<close> under \<open>k\<close>, except for the key \<^verbatim>\<open>__proto__\<close>: there it runs the
  inherited setter, which ignores a number, and nothing is stored.  A read \<^verbatim>\<open>obj[k]\<close>
  gives the index stored under \<open>k\<close>; when none is stored it gives \<^verbatim>\<open>undefined\<close>, or the
  inherited function or object when \<open>k\<close> names a property of \<^verbatim>\<open>Object.prototype\<close>
  (\<^verbatim>\<open>constructor\<close>, \<^verbatim>\<open>toString\<close>, \<^verbatim>\<open>__proto__\<close> and so on).  The code uses the value read in
  three ways, and \<^verbatim>\<open>undefined\<close> and an inherited value behave alike in each: the
  difference \<^verbatim>\<open>d.source - d.target\<close> is \<^verbatim>\<open>NaN\<close>, a comparison with a number is false, and
  \<^verbatim>\<open>graph.nodes[...]\<close> is \<^verbatim>\<open>undefined\<close>.  Both are therefore \<open>None\<close>, and a read is the
  application of the map.
\<close>

definition objectPut :: "(string \<rightharpoonup> nat) \<Rightarrow> string \<Rightarrow> nat \<Rightarrow> (string \<rightharpoonup> nat)" where
  "objectPut obj k i = (if k = ''__proto__'' then obj else obj(k \<mapsto> i))"

subsection \<open>parseXmlDMRS: the link objects\<close>

text \<open>
  The parser numbers the nodes in document order (\<^verbatim>\<open>node_map[nodeid] = i\<close>) and builds
  one object per link element; \<open>from\<close>, \<open>to\<close>, \<open>rargname\<close> and \<open>post\<close> stand for the
  attribute values and text contents read from the element.  No property is checked:
  a \<open>from\<close> or \<open>to\<close> under which no index is stored gives no index (\<open>None\<close>).  The three
  properties that \<^verbatim>\<open>prepareGraph\<close> adds later are absent: \<open>distance\<close> and \<open>level\<close> are
  \<open>None\<close>, and \<open>dir\<close>, which is written before it is read, is given as 0.
\<close>

fun buildNodeMap :: "string list \<Rightarrow> nat \<Rightarrow> (string \<rightharpoonup> nat) \<Rightarrow> (string \<rightharpoonup> nat)" where
  "buildNodeMap [] i node_map = node_map"
| "buildNodeMap (nodeid # rest) i node_map = buildNodeMap rest (Suc i) (objectPut node_map nodeid i)"

definition d3_link :: "(string \<rightharpoonup> nat) \<Rightarrow> string \<times> string \<times> string \<times> string \<Rightarrow> link" where
  "d3_link node_map l =
     (case l of (from, to, rarg, pst) \<Rightarrow>
        \<lparr> source = node_map from, target = node_map to, start = from, end' = to,
          rargname = rarg, post = pst, distance = None, dir = 0, level = None \<rparr>)"

definition d3_graph :: "string list \<Rightarrow> (string \<times> string \<times> string \<times> string) list \<Rightarrow> graph" where
  "d3_graph nodeids ls =
     \<lparr> nodes = map (\<lambda>i. \<lparr> id_node = i \<rparr>) nodeids,
       links = map (d3_link (buildNodeMap nodeids 0 Map.empty)) ls,
       maxTopLevel = 0, maxBottomLevel = 0, sticky = False \<rparr>"

subsection \<open>nextAvailableLevel\<close>

text \<open>
  The gaps a link crosses: the values of \<open>i\<close> in \<^verbatim>\<open>for (i = source; i < target; i++)\<close>.
  With a bound that is no number the comparison is false and the loop body never runs.
\<close>

definition gaps :: "nat option \<Rightarrow> nat option \<Rightarrow> nat list" where
  "gaps src tgt = (case (src, tgt) of (Some s, Some t) \<Rightarrow> [s..<t] | _ \<Rightarrow> [])"

text \<open>
  The first inner loop: \<open>Inr False\<close> at the first gap where \<open>curLevel\<close> is a key,
  \<open>Inr True\<close> when no gap has it; \<^verbatim>\<open>in\<close> applied to a missing entry raises.
\<close>

fun spanFree :: "nat list \<Rightarrow> int \<Rightarrow> levelIdx \<Rightarrow> error + bool" where
  "spanFree [] curLevel lvlIdx = Inr True"
| "spanFree (i # rest) curLevel lvlIdx =
     (case lvlIdx i of
        None \<Rightarrow> Inl TypeError
      | Some ls \<Rightarrow> if curLevel \<in> set ls then Inr False else spanFree rest curLevel lvlIdx)"

text \<open>The second inner loop: \<^verbatim>\<open>lvlIdx[key][level] = true\<close> on every gap.\<close>

fun markSpan :: "nat list \<Rightarrow> int \<Rightarrow> levelIdx \<Rightarrow> error + levelIdx" where
  "markSpan [] lv lvlIdx = Inr lvlIdx"
| "markSpan (i # rest) lv lvlIdx =
     (case lvlIdx i of
        None \<Rightarrow> Inl TypeError
      | Some ls \<Rightarrow> markSpan rest lv (lvlIdx(i \<mapsto> List.insert lv ls)))"

text \<open>
  The \<^verbatim>\<open>while (level == 0)\<close> loop.  A successful round sets \<open>level = curLevel\<close> and
  marks the gaps; the loop ends when that level is not 0.  The loop need not end (with
  \<open>dir = 0\<close> it never does), so not returning is the value \<open>None\<close>.
\<close>

partial_function (option) levelSearch ::
  "nat list \<Rightarrow> int \<Rightarrow> int \<Rightarrow> levelIdx \<Rightarrow> (error + int \<times> levelIdx) option" where
  "levelSearch sp dr curLevel lvlIdx =
     (case spanFree sp curLevel lvlIdx of
        Inl e \<Rightarrow> Some (Inl e)
      | Inr success \<Rightarrow>
          if success then
            (case markSpan sp curLevel lvlIdx of
               Inl e \<Rightarrow> Some (Inl e)
             | Inr lvlIdx' \<Rightarrow>
                 if curLevel = 0 then levelSearch sp dr curLevel lvlIdx'
                 else Some (Inr (curLevel, lvlIdx')))
          else levelSearch sp dr (curLevel + dr) lvlIdx)"

text \<open>\<^verbatim>\<open>source > target\<close>: false when either side is no number.\<close>

definition jsGreater :: "nat option \<Rightarrow> nat option \<Rightarrow> bool" where
  "jsGreater a b = (case (a, b) of (Some x, Some y) \<Rightarrow> x > y | _ \<Rightarrow> False)"

definition nextAvailableLevel ::
  "nat option \<Rightarrow> nat option \<Rightarrow> int \<Rightarrow> levelIdx \<Rightarrow> (error + int \<times> levelIdx) option" where
  "nextAvailableLevel src tgt dr lvlIdx =
     (if jsGreater src tgt then levelSearch (gaps tgt src) dr dr lvlIdx
      else levelSearch (gaps src tgt) dr dr lvlIdx)"

subsection \<open>prepareGraph\<close>

text \<open>
  The first \<^verbatim>\<open>forEach\<close>: the index of every node identifier (the last node wins when two
  share one, and none is stored for the identifier \<^verbatim>\<open>__proto__\<close>), and one entry per node
  in \<^verbatim>\<open>levelIdx\<close>.
\<close>

fun indexNodes ::
  "node list \<Rightarrow> nat \<Rightarrow> (string \<rightharpoonup> nat) \<times> levelIdx \<Rightarrow> (string \<rightharpoonup> nat) \<times> levelIdx" where
  "indexNodes [] i acc = acc"
| "indexNodes (d # ds) i (nodeIdx, levelIdx) =
     indexNodes ds (Suc i) (objectPut nodeIdx (id_node d) i, levelIdx(i \<mapsto> []))"

text \<open>\<^verbatim>\<open>Math.abs(d.source - d.target)\<close>: \<^verbatim>\<open>NaN\<close> when an operand is no number.\<close>

definition absDiff :: "nat option \<Rightarrow> nat option \<Rightarrow> nat option" where
  "absDiff a b =
     (case (a, b) of
        (Some x, Some y) \<Rightarrow> Some (if x \<le> y then y - x else x - y)
      | _ \<Rightarrow> None)"

text \<open>The second \<^verbatim>\<open>forEach\<close>, on one link.\<close>

definition resolveLink :: "(string \<rightharpoonup> nat) \<Rightarrow> link \<Rightarrow> link" where
  "resolveLink nodeIdx d0 =
     (let d = d0\<lparr>target := nodeIdx (end' d0)\<rparr> in
      if looseEqZero (start d) then d\<lparr>dir := 1\<rparr>
      else
        let d = d\<lparr>source := nodeIdx (start d)\<rparr>;
            d = d\<lparr>distance := absDiff (source d) (target d)\<rparr>
        in d\<lparr>dir := (if rargname d = '''' \<or> toUpperCase (post d) = ''H'' then - 1 else 1)\<rparr>)"

text \<open>
  A loop whose body may raise or fail to return: the body is run on the elements in
  order, and the first exception or non-return ends the loop.
\<close>

fun forEach :: "('a \<Rightarrow> 's \<Rightarrow> (error + 's) option) \<Rightarrow> 'a list \<Rightarrow> 's \<Rightarrow> (error + 's) option" where
  "forEach f [] s = Some (Inr s)"
| "forEach f (x # xs) s =
     (case f x s of
        None \<Rightarrow> None
      | Some (Inl e) \<Rightarrow> Some (Inl e)
      | Some (Inr s') \<Rightarrow> forEach f xs s')"

text \<open>
  The body of the \<^verbatim>\<open>forEach\<close> inside the \<^verbatim>\<open>dist\<close> loop, on the link at index \<open>i\<close>:
  first the part after the two early returns (the call of \<^verbatim>\<open>nextAvailableLevel\<close>, the
  assignment of \<^verbatim>\<open>d.level\<close> and the update of the two extremes), then the whole body.
  \<^verbatim>\<open>dist != d.distance\<close> holds when the distance is absent or \<^verbatim>\<open>NaN\<close>.
\<close>

definition placeLink :: "nat \<Rightarrow> graph \<times> levelIdx \<Rightarrow> (error + graph \<times> levelIdx) option" where
  "placeLink i st =
     (case st of (g, levelIdx) \<Rightarrow>
        let d = links g ! i in
        (case nextAvailableLevel (source d) (target d) (dir d) levelIdx of
           None \<Rightarrow> None
         | Some (Inl e) \<Rightarrow> Some (Inl e)
         | Some (Inr (lv, levelIdx')) \<Rightarrow>
             let g' = g\<lparr>links := (links g)[i := d\<lparr>level := Some lv\<rparr>]\<rparr> in
             Some (Inr
               (if dir d = 1 \<and> maxTopLevel g' < lv then g'\<lparr>maxTopLevel := lv\<rparr>
                else if dir d = - 1 \<and> maxBottomLevel g' > lv then g'\<lparr>maxBottomLevel := lv\<rparr>
                else g',
                levelIdx'))))"

definition levelLink :: "nat \<Rightarrow> nat \<Rightarrow> graph \<times> levelIdx \<Rightarrow> (error + graph \<times> levelIdx) option" where
  "levelLink dist i st =
     (let d = links (fst st) ! i in
      if looseEqZero (start d) then Some (Inr st)
      else if distance d \<noteq> Some dist then Some (Inr st)
      else placeLink i st)"

definition levelPass :: "nat \<Rightarrow> graph \<times> levelIdx \<Rightarrow> (error + graph \<times> levelIdx) option" where
  "levelPass dist st = forEach (levelLink dist) [0..<length (links (fst st))] st"

text \<open>
  \<^verbatim>\<open>prepareGraph\<close> up to the end of the \<^verbatim>\<open>dist\<close> loop, returning the local \<^verbatim>\<open>levelIdx\<close>
  along with the graph.
\<close>

definition assignLevels :: "graph \<Rightarrow> (error + graph \<times> levelIdx) option" where
  "assignLevels g =
     (case indexNodes (nodes g) 0 (Map.empty, Map.empty) of (nodeIdx, levelIdx) \<Rightarrow>
        let g1 = g\<lparr>links := map (resolveLink nodeIdx) (links g)\<rparr>;
            g2 = g1\<lparr>maxTopLevel := 0\<rparr>;
            g3 = g2\<lparr>maxBottomLevel := 0\<rparr>
        in forEach levelPass [0..<length (nodes g3)] (g3, levelIdx))"

definition prepareGraph :: "graph \<Rightarrow> (error + graph) option" where
  "prepareGraph g =
     (case assignLevels g of
        None \<Rightarrow> None
      | Some (Inl e) \<Rightarrow> Some (Inl e)
      | Some (Inr (g', levelIdx)) \<Rightarrow> Some (Inr (g'\<lparr>sticky := False\<rparr>)))"

subsection \<open>getPathSpec: how high a path rises\<close>

text \<open>
  \<^verbatim>\<open>getPathSpec\<close> draws a link from \<open>y1\<close>, the height of the box of its target node, to
  \<open>y2\<close>.  Box heights and \<open>x\<close> positions are measurements of the rendered text; the model
  keeps \<open>y2 - y1\<close>, which is what the layout decides, and the \<^verbatim>\<open>TypeError\<close> of reading a
  property of \<^verbatim>\<open>graph.nodes[i]\<close> when \<open>i\<close> is undefined or no index of a node.  The level
  of a link that was given none is \<^verbatim>\<open>undefined\<close>, and the rise is \<^verbatim>\<open>NaN\<close> (\<open>None\<close>).
  The path is then mirrored by \<^verbatim>\<open>scale(1, -dir)\<close>: direction \<open>1\<close> is above the line.
\<close>

definition level_dy :: int where
  "level_dy = 25"

definition pathRise :: "link \<Rightarrow> graph \<Rightarrow> error + int option" where
  "pathRise link graph =
     (case target link of
        None \<Rightarrow> Inl TypeError
      | Some t \<Rightarrow>
          if t \<ge> length (nodes graph) then Inl TypeError
          else if looseEqZero (start link) then
            Inr (Some (((if dir link = 1 then maxTopLevel graph else maxBottomLevel graph) + 1) * level_dy))
          else
            (case source link of
               None \<Rightarrow> Inl TypeError
             | Some s \<Rightarrow>
                 if s \<ge> length (nodes graph) then Inl TypeError
                 else
                   (case level link of
                      None \<Rightarrow> Inr None
                    | Some l \<Rightarrow> Inr (Some (\<bar>l\<bar> * level_dy - 5)))))"

subsection \<open>updateHighlights: the sets of a selected node\<close>

text \<open>
  For the selected node with identifier \<open>nid\<close> the function fills four \<^verbatim>\<open>d3.set\<close>s while it
  classes the links: \<open>outs\<close>, \<open>ins\<close>, \<open>labelset\<close> and \<open>scopes\<close>.  A string is truthy when
  it is not empty; identifiers are compared as strings.  The \<^verbatim>\<open>while (labelAdded)\<close> loop
  then runs passes over the links, each pass adding the other end of every EQ link
  that has exactly one end in \<open>labelset\<close>, until a pass adds nothing.
\<close>

definition collectOuts :: "string \<Rightarrow> link list \<Rightarrow> string set" where
  "collectOuts nid ls =
     fold (\<lambda>l acc. if rargname l \<noteq> '''' \<and> nid = start l then insert (end' l) acc else acc) ls {}"

definition collectIns :: "string \<Rightarrow> link list \<Rightarrow> string set" where
  "collectIns nid ls =
     fold (\<lambda>l acc. if rargname l \<noteq> '''' \<and> nid = end' l then insert (start l) acc else acc) ls {}"

definition seedLabels :: "string \<Rightarrow> link list \<Rightarrow> string set" where
  "seedLabels nid ls =
     fold (\<lambda>l acc. if post l = ''EQ'' \<and> (start l = nid \<or> end' l = nid)
                    then insert (end' l) (insert (start l) acc) else acc) ls {}"

definition collectScopes :: "string \<Rightarrow> link list \<Rightarrow> string set" where
  "collectScopes nid ls =
     fold (\<lambda>l acc. if start l = nid \<and> (post l = ''H'' \<or> post l = ''HEQ'')
                    then insert (end' l) acc else acc) ls {}"

definition expandStep :: "link \<Rightarrow> string set \<times> bool \<Rightarrow> string set \<times> bool" where
  "expandStep l st =
     (case st of (labelset, labelAdded) \<Rightarrow>
        if post l = ''EQ'' then
          if start l \<in> labelset \<and> end' l \<notin> labelset then (insert (end' l) labelset, True)
          else if end' l \<in> labelset \<and> start l \<notin> labelset then (insert (start l) labelset, True)
          else st
        else st)"

function expandLabels :: "link list \<Rightarrow> string set \<Rightarrow> string set" where
  "expandLabels ls labelset =
     (case fold expandStep ls (labelset, False) of
        (labelset', labelAdded) \<Rightarrow> if labelAdded then expandLabels ls labelset' else labelset')"
  by pat_completeness auto

lemma expandPass_grows:
  "fold expandStep ls (S, b) = (S', b') \<Longrightarrow>
   S \<subseteq> S' \<and> S' \<subseteq> S \<union> (start ` set ls \<union> end' ` set ls) \<and> (b \<longrightarrow> b') \<and> (b' \<and> \<not> b \<longrightarrow> S \<noteq> S')"
proof (induction ls arbitrary: S b)
  case Nil
  then show ?case by simp
next
  case (Cons l ls)
  obtain S1 b1 where s1: "expandStep l (S, b) = (S1, b1)" by (cases "expandStep l (S, b)")
  with Cons.prems have r: "fold expandStep ls (S1, b1) = (S', b')" by simp
  from s1 have st: "S \<subseteq> S1 \<and> S1 \<subseteq> S \<union> {start l, end' l} \<and> (b \<longrightarrow> b1) \<and> (b1 \<and> \<not> b \<longrightarrow> S \<noteq> S1)"
    by (auto simp: expandStep_def split: if_splits)
  from Cons.IH[OF r] st show ?case by auto
qed

termination expandLabels
proof (relation "measure (\<lambda>(ls, S). card ((start ` set ls \<union> end' ` set ls) - S))")
  show "wf (measure (\<lambda>(ls, S). card ((start ` set ls \<union> end' ` set ls) - S)))" by simp
next
  fix ls :: "link list" and labelset x :: "string set" and y :: bool
  assume "(x, y) = fold expandStep ls (labelset, False)" and y: "y"
  then have f: "fold expandStep ls (labelset, False) = (x, True)" by simp
  let ?E = "start ` set ls \<union> end' ` set ls"
  from expandPass_grows[OF f] have sub: "labelset \<subseteq> x" "x \<subseteq> labelset \<union> ?E" "labelset \<noteq> x"
    by auto
  then obtain v where v: "v \<in> x" "v \<notin> labelset" by auto
  then have "v \<in> ?E - labelset" "v \<notin> ?E - x" using sub(2) by auto
  moreover have "?E - x \<subseteq> ?E - labelset" using sub(1) by auto
  ultimately have "?E - x \<subset> ?E - labelset" by auto
  moreover have "finite (?E - labelset)" by simp
  ultimately have "card (?E - x) < card (?E - labelset)" by (rule psubset_card_mono[rotated])
  then show "((ls, x), (ls, labelset)) \<in> measure (\<lambda>(ls, S). card ((start ` set ls \<union> end' ` set ls) - S))"
    by simp
qed

definition updateHighlights ::
  "string \<Rightarrow> link list \<Rightarrow> string set \<times> string set \<times> string set \<times> string set" where
  "updateHighlights nid ls =
     (let outs = collectOuts nid ls;
          ins = collectIns nid ls;
          labelset = expandLabels ls (seedLabels nid ls);
          scopes = collectScopes nid ls
      in (outs, ins, labelset, scopes))"

text \<open>
  The label-set in the words of the specification: the identifiers connected to \<open>nid\<close> by
  a chain of one or more EQ links, each taken in either direction.
\<close>

definition eqEdges :: "link list \<Rightarrow> (string \<times> string) set" where
  "eqEdges ls = set (map (\<lambda>l. (start l, end' l)) (filter (\<lambda>l. post l = ''EQ'') ls))"

definition labelClosure :: "string \<Rightarrow> link list \<Rightarrow> string set" where
  "labelClosure nid ls = (eqEdges ls \<union> (eqEdges ls)\<inverse>)\<^sup>+ `` {nid}"

subsection \<open>Notions used to state the properties\<close>

text \<open>A link is top-level when \<^verbatim>\<open>d.start == 0\<close> holds, the test the code makes.\<close>

definition isTop :: "link \<Rightarrow> bool" where
  "isTop d = looseEqZero (start d)"

text \<open>
  The span of a link: the gaps \<open>i\<close> with \<open>min source target \<le> i < max source target\<close>,
  which are the gaps \<^verbatim>\<open>nextAvailableLevel\<close> visits for it.
\<close>

definition linkSpan :: "link \<Rightarrow> nat list" where
  "linkSpan d =
     (if jsGreater (source d) (target d) then gaps (target d) (source d)
      else gaps (source d) (target d))"

text \<open>A level is free on a span when no gap of the span has it as a key.\<close>

definition freeOn :: "nat list \<Rightarrow> int \<Rightarrow> levelIdx \<Rightarrow> bool" where
  "freeOn sp lv lvlIdx = list_all (\<lambda>i. lv \<notin> set (the (lvlIdx i))) sp"

text \<open>The occupancy after a level has been marked on every gap of a span.\<close>

definition marked :: "nat list \<Rightarrow> int \<Rightarrow> levelIdx \<Rightarrow> levelIdx" where
  "marked sp lv lvlIdx =
     (\<lambda>i. if i \<in> set sp then Some (List.insert lv (the (lvlIdx i))) else lvlIdx i)"

text \<open>A link that the \<^verbatim>\<open>dist\<close> loop can select: not top-level, with a distance.\<close>

definition placeable :: "link \<Rightarrow> bool" where
  "placeable d = (\<not> isTop d \<and> distance d \<noteq> None)"

text \<open>
  The state \<^verbatim>\<open>prepareGraph\<close> is in when the \<^verbatim>\<open>dist\<close> loop starts: the identifier index,
  the links after the second \<^verbatim>\<open>forEach\<close>, the graph with both extremes at 0, and
  \<^verbatim>\<open>levelIdx\<close> with one empty entry per node.
\<close>

definition nodeIndex :: "graph \<Rightarrow> (string \<rightharpoonup> nat)" where
  "nodeIndex g = fst (indexNodes (nodes g) 0 (Map.empty, Map.empty))"

definition resolvedLinks :: "graph \<Rightarrow> link list" where
  "resolvedLinks g = map (resolveLink (nodeIndex g)) (links g)"

definition resolvedGraph :: "graph \<Rightarrow> graph" where
  "resolvedGraph g = g\<lparr>links := resolvedLinks g, maxTopLevel := 0, maxBottomLevel := 0\<rparr>"

definition emptyLevels :: "nat \<Rightarrow> levelIdx" where
  "emptyLevels n = (\<lambda>k. if k < n then Some [] else None)"


text \<open>
  A link that the pass places: not top-level, with both ends resolved.  The levels of the
  placed links of one direction, in the order of the links.
\<close>

definition placed :: "link \<Rightarrow> bool" where
  "placed d = (\<not> isTop d \<and> source d \<noteq> None \<and> target d \<noteq> None)"

definition placedLevels :: "int \<Rightarrow> graph \<Rightarrow> int list" where
  "placedLevels dr g =
     concat (map (\<lambda>d. case level d of
                         None \<Rightarrow> []
                       | Some l \<Rightarrow> if placed d \<and> dir d = dr then [l] else []) (links g))"







text \<open>
  An identifier names a node when it is the \<^verbatim>\<open>id\<close> of a node of the graph and an index is
  stored for it, which is so for every identifier but \<^verbatim>\<open>__proto__\<close>.
\<close>

definition namesNode :: "graph \<Rightarrow> string \<Rightarrow> bool" where
  "namesNode g s = (s \<in> id_node ` set (nodes g) \<and> s \<noteq> ''__proto__'')"

subsection \<open>The invariant of the dist loop\<close>

text \<open>
  \<open>L\<close> is the list of links when the loop starts, \<open>n\<close> the number of nodes and \<open>P\<close>
  the set of indices of the links placed so far.
\<close>

definition resolvedOk :: "nat \<Rightarrow> link \<Rightarrow> bool" where
  "resolvedOk n d =
     (isTop d \<or>
      ((dir d = 1 \<or> dir d = - 1) \<and> distance d = absDiff (source d) (target d) \<and>
       (\<forall>s. source d = Some s \<longrightarrow> s < n) \<and> (\<forall>t. target d = Some t \<longrightarrow> t < n)))"

definition frame :: "link list \<Rightarrow> nat set \<Rightarrow> graph \<Rightarrow> bool" where
  "frame L P g =
     (length (links g) = length L \<and>
      (\<forall>i<length L. (links g ! i)\<lparr>level := level (L ! i)\<rparr> = L ! i \<and>
                     (i \<notin> P \<longrightarrow> links g ! i = L ! i)))"

definition occupied :: "link list \<Rightarrow> nat set \<Rightarrow> graph \<Rightarrow> levelIdx \<Rightarrow> bool" where
  "occupied L P g lv =
     (\<forall>i\<in>P. \<exists>m\<ge>1. level (links g ! i) = Some (int m * dir (L ! i)) \<and>
        (\<forall>k\<in>set (linkSpan (L ! i)). int m * dir (L ! i) \<in> set (the (lv k))))"

definition justified :: "link list \<Rightarrow> nat set \<Rightarrow> graph \<Rightarrow> levelIdx \<Rightarrow> bool" where
  "justified L P g lv =
     (\<forall>k l. k \<in> dom lv \<longrightarrow> l \<in> set (the (lv k)) \<longrightarrow>
        (\<exists>i\<in>P. level (links g ! i) = Some l \<and> k \<in> set (linkSpan (L ! i))))"

definition apart :: "link list \<Rightarrow> nat set \<Rightarrow> graph \<Rightarrow> bool" where
  "apart L P g =
     (\<forall>i\<in>P. \<forall>j\<in>P. i \<noteq> j \<longrightarrow> set (linkSpan (L ! i)) \<inter> set (linkSpan (L ! j)) \<noteq> {} \<longrightarrow>
        level (links g ! i) \<noteq> level (links g ! j))"

definition topMax :: "link list \<Rightarrow> nat set \<Rightarrow> graph \<Rightarrow> bool" where
  "topMax L P g =
     (0 \<le> maxTopLevel g \<and>
      (\<forall>i\<in>P. dir (L ! i) = 1 \<longrightarrow> (\<forall>l. level (links g ! i) = Some l \<longrightarrow> l \<le> maxTopLevel g)) \<and>
      (maxTopLevel g = 0 \<or>
       (\<exists>i\<in>P. dir (L ! i) = 1 \<and> level (links g ! i) = Some (maxTopLevel g))))"

definition bottomMin :: "link list \<Rightarrow> nat set \<Rightarrow> graph \<Rightarrow> bool" where
  "bottomMin L P g =
     (maxBottomLevel g \<le> 0 \<and>
      (\<forall>i\<in>P. dir (L ! i) = - 1 \<longrightarrow> (\<forall>l. level (links g ! i) = Some l \<longrightarrow> maxBottomLevel g \<le> l)) \<and>
      (maxBottomLevel g = 0 \<or>
       (\<exists>i\<in>P. dir (L ! i) = - 1 \<and> level (links g ! i) = Some (maxBottomLevel g))))"

definition layoutInv :: "link list \<Rightarrow> nat \<Rightarrow> nat set \<Rightarrow> graph \<times> levelIdx \<Rightarrow> bool" where
  "layoutInv L n P st =
     (case st of (g, lv) \<Rightarrow>
        P \<subseteq> {i. i < length L \<and> placeable (L ! i)} \<and> length (nodes g) = n \<and> dom lv = {0..<n} \<and>
        frame L P g \<and> occupied L P g lv \<and> justified L P g lv \<and> apart L P g \<and>
        topMax L P g \<and> bottomMin L P g)"

text \<open>The links placed once the passes for the distances in \<open>D\<close> are over, and those
  placed among the indices \<open>J\<close> during the pass for \<open>dist\<close>.\<close>

definition placedBy :: "link list \<Rightarrow> nat set \<Rightarrow> nat set" where
  "placedBy L D = {i. i < length L \<and> placeable (L ! i) \<and> (\<exists>k\<in>D. distance (L ! i) = Some k)}"

definition placedIn :: "link list \<Rightarrow> nat \<Rightarrow> nat set \<Rightarrow> nat set" where
  "placedIn L dist J = {i. i \<in> J \<and> i < length L \<and> placeable (L ! i) \<and> distance (L ! i) = Some dist}"

subsection \<open>A sample document\<close>

text \<open>
  Three nodes; a TOP link, two links over the same gap above the line, an undirected EQ
  link and a handle link below it, and a link whose target names no node.  The second
  definition is the graph \<^verbatim>\<open>prepareGraph\<close> turns the first into.
\<close>

definition exampleGraph :: graph where
  "exampleGraph = d3_graph [''1'', ''2'', ''3'']
     [(''0'', ''2'', '''', ''H''), (''1'', ''2'', ''ARG1'', ''NEQ''), (''1'', ''2'', ''ARG2'', ''NEQ''),
      (''2'', ''3'', '''', ''EQ''), (''3'', ''1'', ''RSTR'', ''H''), (''1'', ''9'', ''ARG3'', ''NEQ'')]"

definition exampleLayout :: graph where
  "exampleLayout =
     \<lparr>nodes = [\<lparr>id_node = ''1''\<rparr>, \<lparr>id_node = ''2''\<rparr>, \<lparr>id_node = ''3''\<rparr>],
      links =
        [\<lparr>source = None, target = Some 1, start = ''0'', end' = ''2'',
            rargname = '''', post = ''H'', distance = None, dir = 1, level = None\<rparr>,
         \<lparr>source = Some 0, target = Some 1, start = ''1'', end' = ''2'',
            rargname = ''ARG1'', post = ''NEQ'', distance = Some 1, dir = 1, level = Some 1\<rparr>,
         \<lparr>source = Some 0, target = Some 1, start = ''1'', end' = ''2'',
            rargname = ''ARG2'', post = ''NEQ'', distance = Some 1, dir = 1, level = Some 2\<rparr>,
         \<lparr>source = Some 1, target = Some 2, start = ''2'', end' = ''3'',
            rargname = '''', post = ''EQ'', distance = Some 1, dir = - 1, level = Some (- 1)\<rparr>,
         \<lparr>source = Some 2, target = Some 0, start = ''3'', end' = ''1'',
            rargname = ''RSTR'', post = ''H'', distance = Some 2, dir = - 1, level = Some (- 2)\<rparr>,
         \<lparr>source = Some 0, target = None, start = ''1'', end' = ''9'',
            rargname = ''ARG3'', post = ''NEQ'', distance = None, dir = 1, level = None\<rparr>],
      maxTopLevel = 2, maxBottomLevel = - 2, sticky = False\<rparr>"



section \<open>Properties\<close>

subsection \<open>Comparing a string with 0\<close>

lemma looseEqZero_examples:
  "looseEqZero ''0''" "looseEqZero '' 0.0e5 ''" "looseEqZero []" "looseEqZero ''0x00''"
  "looseEqZero ''-0''" "looseEqZero ''.0''"
  "\<not> looseEqZero ''10001''" "\<not> looseEqZero ''-''" "\<not> looseEqZero ''0x''"
  "\<not> looseEqZero ''1 0''" "\<not> looseEqZero ''.''" "\<not> looseEqZero ''0e''"
  "\<not> looseEqZero ''0.001''" "\<not> looseEqZero ''1e-5''" "\<not> looseEqZero ''-0x0''"
  by code_simp+

text \<open>
  White space outside ASCII is dropped as well: a no-break space before the digit and an
  em space (U+2003) after it, and a string made of a byte order mark alone.
\<close>

lemma looseEqZero_whiteSpace:
  "looseEqZero [CHR 0xC2, CHR 0xA0, CHR ''0'', CHR 0xE2, CHR 0x80, CHR 0x83]"
  "looseEqZero [CHR 0xEF, CHR 0xBB, CHR 0xBF]"
  "\<not> looseEqZero [CHR ''1'', CHR 0xE2, CHR 0x80, CHR 0x83]"
  by code_simp+

text \<open>
  Literals below half of the smallest positive double are zero: \<^verbatim>\<open>"1e-400" == 0\<close> and
  \<^verbatim>\<open>"2e-324" == 0\<close> hold, \<^verbatim>\<open>"3e-324" == 0\<close> does not.
\<close>

lemma looseEqZero_underflow:
  "looseEqZero ''1e-400''" "looseEqZero ''2e-324''" "\<not> looseEqZero ''3e-324''"
  by code_simp+

subsection \<open>The level search\<close>

lemma spanFree_dom:
  "set sp \<subseteq> dom lvlIdx \<Longrightarrow> spanFree sp lv lvlIdx = Inr (freeOn sp lv lvlIdx)"
  by (induction sp) (auto simp: freeOn_def split: option.splits)

lemma marked_Cons:
  "lvlIdx a = Some ls \<Longrightarrow> marked sp lv (lvlIdx(a \<mapsto> List.insert lv ls)) = marked (a # sp) lv lvlIdx"
  by (auto simp: marked_def fun_eq_iff)

lemma markSpan_dom:
  "set sp \<subseteq> dom lvlIdx \<Longrightarrow> markSpan sp lv lvlIdx = Inr (marked sp lv lvlIdx)"
proof (induction sp arbitrary: lvlIdx)
  case Nil
  then show ?case by (simp add: marked_def)
next
  case (Cons a sp)
  then obtain ls where ls: "lvlIdx a = Some ls" by auto
  have "set sp \<subseteq> dom (lvlIdx(a \<mapsto> List.insert lv ls))" using Cons.prems by auto
  from Cons.IH[OF this] have "markSpan sp lv (lvlIdx(a \<mapsto> List.insert lv ls)) = Inr (marked (a # sp) lv lvlIdx)"
    by (simp only: marked_Cons[of lvlIdx a ls, OF ls])
  then show ?case using ls by simp
qed

lemma levelSearch_steps:
  assumes "set sp \<subseteq> dom lvlIdx"
    and "\<forall>j<k. \<not> freeOn sp (cur + int j * dr) lvlIdx"
    and "freeOn sp (cur + int k * dr) lvlIdx"
    and "cur + int k * dr \<noteq> 0"
  shows "levelSearch sp dr cur lvlIdx =
     Some (Inr (cur + int k * dr, marked sp (cur + int k * dr) lvlIdx))"
  using assms
proof (induction k arbitrary: cur)
  case 0
  then show ?case
    by (subst levelSearch.simps) (simp add: spanFree_dom markSpan_dom)
next
  case (Suc k)
  have nf: "\<not> freeOn sp cur lvlIdx"
    using Suc.prems(2)[rule_format, of 0] by simp
  have eq: "cur + dr + int k * dr = cur + int (Suc k) * dr"
    by (simp add: algebra_simps)
  have "levelSearch sp dr (cur + dr) lvlIdx =
     Some (Inr (cur + dr + int k * dr, marked sp (cur + dr + int k * dr) lvlIdx))"
  proof (rule Suc.IH[OF Suc.prems(1)])
    show "\<forall>j<k. \<not> freeOn sp (cur + dr + int j * dr) lvlIdx"
    proof (intro allI impI)
      fix j assume "j < k"
      then have "Suc j < Suc k" by simp
      from Suc.prems(2)[rule_format, OF this]
      show "\<not> freeOn sp (cur + dr + int j * dr) lvlIdx"
        by (simp add: algebra_simps)
    qed
    show "freeOn sp (cur + dr + int k * dr) lvlIdx"
      unfolding eq by (rule Suc.prems(3))
    show "cur + dr + int k * dr \<noteq> 0"
      unfolding eq by (rule Suc.prems(4))
  qed
  then have "levelSearch sp dr (cur + dr) lvlIdx =
     Some (Inr (cur + int (Suc k) * dr, marked sp (cur + int (Suc k) * dr) lvlIdx))"
    by (simp only: eq)
  then show ?case
    using nf Suc.prems(1)
    by (subst levelSearch.simps) (simp add: spanFree_dom)
qed

lemma freeOn_beyond:
  "\<exists>B::nat. \<forall>m>B. freeOn sp (int m * dr) lvlIdx" if "dr = 1 \<or> dr = - 1"
proof (induction sp)
  case Nil
  then show ?case by (simp add: freeOn_def)
next
  case (Cons a sp)
  then obtain B where B: "\<forall>m>B. freeOn sp (int m * dr) lvlIdx" by blast
  define C where "C = Max (insert 0 ((\<lambda>l. nat (abs l)) ` set (the (lvlIdx a))))"
  have C: "nat (abs l) \<le> C" if "l \<in> set (the (lvlIdx a))" for l
    unfolding C_def using that by (intro Max_ge) auto
  have "\<forall>m>max B C. freeOn (a # sp) (int m * dr) lvlIdx"
  proof (intro allI impI)
    fix m assume m: "m > max B C"
    have "int m * dr \<notin> set (the (lvlIdx a))"
    proof
      assume "int m * dr \<in> set (the (lvlIdx a))"
      from C[OF this] have "m \<le> C" using \<open>dr = 1 \<or> dr = - 1\<close> by auto
      with m show False by simp
    qed
    moreover have "freeOn sp (int m * dr) lvlIdx" using B m by simp
    ultimately show "freeOn (a # sp) (int m * dr) lvlIdx" by (simp add: freeOn_def)
  qed
  then show ?case by blast
qed

lemma levelSearch_total:
  assumes dom: "set sp \<subseteq> dom lvlIdx" and dr: "dr = 1 \<or> dr = - 1"
  shows "\<exists>m\<ge>1. levelSearch sp dr dr lvlIdx =
            Some (Inr (int m * dr, marked sp (int m * dr) lvlIdx)) \<and>
          freeOn sp (int m * dr) lvlIdx \<and>
          (\<forall>m'. 1 \<le> m' \<and> m' < m \<longrightarrow> \<not> freeOn sp (int m' * dr) lvlIdx)"
proof -
  from freeOn_beyond[OF dr] obtain B where B: "\<forall>m>B. freeOn sp (int m * dr) lvlIdx" by blast
  define Q where "Q m = (1 \<le> m \<and> freeOn sp (int m * dr) lvlIdx)" for m
  have "freeOn sp (int (Suc B) * dr) lvlIdx" using B by blast
  then have "Q (Suc B)" by (simp add: Q_def)
  define m where "m = (LEAST m. Q m)"
  have Qm: "Q m" unfolding m_def using \<open>Q (Suc B)\<close> by (rule LeastI)
  have least: "\<not> Q m'" if "m' < m" for m'
    using that not_less_Least unfolding m_def by blast
  obtain k where k: "m = Suc k" using Qm by (cases m) (auto simp: Q_def)
  have val: "dr + int k * dr = int m * dr" by (simp add: k algebra_simps)
  have "levelSearch sp dr dr lvlIdx =
      Some (Inr (dr + int k * dr, marked sp (dr + int k * dr) lvlIdx))"
  proof (rule levelSearch_steps[OF dom])
    show "\<forall>j<k. \<not> freeOn sp (dr + int j * dr) lvlIdx"
    proof (intro allI impI)
      fix j assume "j < k"
      then have "\<not> Q (Suc j)" using least[of "Suc j"] k by simp
      then show "\<not> freeOn sp (dr + int j * dr) lvlIdx"
        by (simp add: Q_def algebra_simps)
    qed
    show "freeOn sp (dr + int k * dr) lvlIdx" unfolding val using Qm by (simp add: Q_def)
    show "dr + int k * dr \<noteq> 0" unfolding val using dr k by auto
  qed
  then have "levelSearch sp dr dr lvlIdx = Some (Inr (int m * dr, marked sp (int m * dr) lvlIdx))"
    unfolding val .
  moreover have "\<forall>m'. 1 \<le> m' \<and> m' < m \<longrightarrow> \<not> freeOn sp (int m' * dr) lvlIdx"
    using least by (auto simp: Q_def)
  ultimately show ?thesis using Qm unfolding Q_def by blast
qed

lemma nextAvailableLevel_linkSpan:
  "nextAvailableLevel (source d) (target d) dr lvlIdx = levelSearch (linkSpan d) dr dr lvlIdx"
  by (simp add: nextAvailableLevel_def linkSpan_def)

subsection \<open>The dist loop keeps the invariant\<close>

lemma levelLink_skip:
  "isTop (links g ! i) \<or> distance (links g ! i) \<noteq> Some dist \<Longrightarrow>
   levelLink dist i (g, lv) = Some (Inr (g, lv))"
  by (auto simp: levelLink_def isTop_def Let_def)

lemma levelLink_place:
  assumes d: "links g ! i = d" and nt: "\<not> isTop d" and dist: "distance d = Some dist"
    and dom: "set (linkSpan d) \<subseteq> dom lv" and dr: "dir d = 1 \<or> dir d = - 1"
  shows "\<exists>m\<ge>1. \<exists>g'. levelLink dist i (g, lv) =
            Some (Inr (g', marked (linkSpan d) (int m * dir d) lv)) \<and>
          nextAvailableLevel (source d) (target d) (dir d) lv =
            Some (Inr (int m * dir d, marked (linkSpan d) (int m * dir d) lv)) \<and>
          links g' = (links g)[i := d\<lparr>level := Some (int m * dir d)\<rparr>] \<and>
          nodes g' = nodes g \<and> sticky g' = sticky g \<and>
          maxTopLevel g' = (if dir d = 1 then max (maxTopLevel g) (int m) else maxTopLevel g) \<and>
          maxBottomLevel g' =
            (if dir d = - 1 then min (maxBottomLevel g) (- int m) else maxBottomLevel g) \<and>
          freeOn (linkSpan d) (int m * dir d) lv \<and>
          (\<forall>m'. 1 \<le> m' \<and> m' < m \<longrightarrow> \<not> freeOn (linkSpan d) (int m' * dir d) lv)"
proof -
  from levelSearch_total[OF dom dr] obtain m where m: "1 \<le> m"
    and ls: "levelSearch (linkSpan d) (dir d) (dir d) lv =
               Some (Inr (int m * dir d, marked (linkSpan d) (int m * dir d) lv))"
    and free: "freeOn (linkSpan d) (int m * dir d) lv"
    and least: "\<forall>m'. 1 \<le> m' \<and> m' < m \<longrightarrow> \<not> freeOn (linkSpan d) (int m' * dir d) lv"
    by blast
  define l where "l = int m * dir d"
  have nal: "nextAvailableLevel (source d) (target d) (dir d) lv =
      Some (Inr (l, marked (linkSpan d) l lv))"
    unfolding l_def by (simp only: nextAvailableLevel_linkSpan ls)
  define g1 where "g1 = g\<lparr>links := (links g)[i := d\<lparr>level := Some l\<rparr>]\<rparr>"
  define g' where "g' = (if dir d = 1 \<and> maxTopLevel g1 < l then g1\<lparr>maxTopLevel := l\<rparr>
             else if dir d = - 1 \<and> maxBottomLevel g1 > l
                  then g1\<lparr>maxBottomLevel := l\<rparr> else g1)"
  have "levelLink dist i (g, lv) = Some (Inr (g', marked (linkSpan d) l lv))"
    using d nt dist nal by (simp add: levelLink_def placeLink_def isTop_def Let_def g'_def g1_def)
  moreover have "links g' = (links g)[i := d\<lparr>level := Some l\<rparr>]"
    by (simp add: g'_def g1_def)
  moreover have "nodes g' = nodes g" "sticky g' = sticky g" by (simp_all add: g'_def g1_def)
  moreover have "maxTopLevel g' = (if dir d = 1 then max (maxTopLevel g) (int m) else maxTopLevel g)"
    using dr by (auto simp: g'_def g1_def l_def)
  moreover have "maxBottomLevel g' =
      (if dir d = - 1 then min (maxBottomLevel g) (- int m) else maxBottomLevel g)"
    using dr by (auto simp: g'_def g1_def l_def)
  ultimately show ?thesis using m free least nal unfolding l_def by blast
qed

lemma forEach_rule:
  assumes "distinct xs" and "set xs \<inter> D = {}" and "I D s"
    and step: "\<And>x D s. x \<in> set xs \<Longrightarrow> x \<notin> D \<Longrightarrow> I D s \<Longrightarrow>
                 \<exists>s'. f x s = Some (Inr s') \<and> I (insert x D) s'"
  shows "\<exists>s'. forEach f xs s = Some (Inr s') \<and> I (D \<union> set xs) s'"
  using assms
proof (induction xs arbitrary: D s)
  case Nil
  then show ?case by simp
next
  case (Cons x xs)
  from Cons.prems(2) have xD: "x \<notin> D" by auto
  from Cons.prems(4)[OF _ xD Cons.prems(3)] obtain s1
    where s1: "f x s = Some (Inr s1)" and I1: "I (insert x D) s1" by auto
  have "\<exists>s'. forEach f xs s1 = Some (Inr s') \<and> I (insert x D \<union> set xs) s'"
  proof (rule Cons.IH[OF _ _ I1])
    show "distinct xs" using Cons.prems(1) by simp
    show "set xs \<inter> insert x D = {}" using Cons.prems(1,2) by auto
    show "\<And>y D s. y \<in> set xs \<Longrightarrow> y \<notin> D \<Longrightarrow> I D s \<Longrightarrow>
                 \<exists>s'. f y s = Some (Inr s') \<and> I (insert y D) s'"
      using Cons.prems(4) by simp
  qed
  then show ?case using s1 by simp
qed

lemma linkSpan_bound:
  assumes "resolvedOk n d" "\<not> isTop d"
  shows "set (linkSpan d) \<subseteq> {0..<n}"
  using assms by (auto simp: resolvedOk_def linkSpan_def gaps_def jsGreater_def split: option.splits)

lemma distance_bound:
  assumes "resolvedOk n d" "\<not> isTop d" "distance d = Some k" "0 < n"
  shows "k < n"
  using assms by (auto simp: resolvedOk_def absDiff_def split: option.splits if_splits)

lemma dom_marked: "set sp \<subseteq> dom lv \<Longrightarrow> dom (marked sp l lv) = dom lv"
  by (auto simp: marked_def split: if_splits)

lemma marked_in: "k \<in> set sp \<Longrightarrow> set (the (marked sp l lv k)) = insert l (set (the (lv k)))"
  by (simp add: marked_def)

lemma marked_out: "k \<notin> set sp \<Longrightarrow> marked sp l lv k = lv k"
  by (simp add: marked_def)

lemma marked_mono: "x \<in> set (the (lv k)) \<Longrightarrow> x \<in> set (the (marked sp l lv k))"
  by (simp add: marked_def)

lemma marked_cases:
  "x \<in> set (the (marked sp l lv k)) \<Longrightarrow> (x = l \<and> k \<in> set sp) \<or> x \<in> set (the (lv k))"
  by (auto simp: marked_def split: if_splits)

lemma freeOn_D: "freeOn sp l lv \<Longrightarrow> k \<in> set sp \<Longrightarrow> l \<notin> set (the (lv k))"
  by (simp add: freeOn_def list_all_iff)

lemma layoutInv_place:
  assumes inv: "layoutInv L n P (g, lv)"
    and i: "i < length L" and iP: "i \<notin> P"
    and pl: "placeable (L ! i)" and ok: "resolvedOk n (L ! i)"
    and dist: "distance (L ! i) = Some dist"
  shows "\<exists>s'. levelLink dist i (g, lv) = Some (Inr s') \<and> layoutInv L n (insert i P) s'"
proof -
  define d where "d = L ! i"
  from inv have PL: "P \<subseteq> {i. i < length L \<and> placeable (L ! i)}" and nn: "length (nodes g) = n"
    and dom: "dom lv = {0..<n}" and fr: "frame L P g" and oc: "occupied L P g lv"
    and ju: "justified L P g lv" and ap: "apart L P g" and tm: "topMax L P g"
    and bm: "bottomMin L P g"
    by (simp_all add: layoutInv_def)
  have len: "length (links g) = length L" using fr by (simp add: frame_def)
  have gi: "links g ! i = d" using fr i iP by (simp add: frame_def d_def)
  have nt: "\<not> isTop d" using pl by (simp add: placeable_def d_def)
  have sp: "set (linkSpan d) \<subseteq> dom lv"
    using linkSpan_bound[OF ok] nt dom by (simp add: d_def)
  have dr: "dir d = 1 \<or> dir d = - 1" using ok nt by (simp add: resolvedOk_def d_def)
  from levelLink_place[OF gi nt dist[folded d_def] sp dr]
  obtain m g' where m: "1 \<le> m"
    and res: "levelLink dist i (g, lv) = Some (Inr (g', marked (linkSpan d) (int m * dir d) lv))"
    and lk: "links g' = (links g)[i := d\<lparr>level := Some (int m * dir d)\<rparr>]"
    and nd: "nodes g' = nodes g"
    and mt: "maxTopLevel g' = (if dir d = 1 then max (maxTopLevel g) (int m) else maxTopLevel g)"
    and mb: "maxBottomLevel g' =
               (if dir d = - 1 then min (maxBottomLevel g) (- int m) else maxBottomLevel g)"
    and free: "freeOn (linkSpan d) (int m * dir d) lv"
    by blast
  define l where "l = int m * dir d"
  define lv' where "lv' = marked (linkSpan d) l lv"
  have lki: "links g' ! i = d\<lparr>level := Some l\<rparr>" using lk i len by (simp add: l_def)
  have lkj: "links g' ! j = links g ! j" if "j \<noteq> i" for j using lk that by simp
  have lkP: "links g' ! j = links g ! j" if "j \<in> P" for j using lkj[of j] that iP by auto
  have l0: "l \<noteq> 0" using m dr by (auto simp: l_def)
  have c1: "insert i P \<subseteq> {i. i < length L \<and> placeable (L ! i)}" using PL i pl by auto
  have c2: "dom lv' = {0..<n}" unfolding lv'_def using dom_marked[OF sp] dom by simp
  have c3: "frame L (insert i P) g'"
    unfolding frame_def
  proof (rule conjI)
    show "length (links g') = length L" using lk len by simp
    show "\<forall>j<length L. (links g' ! j)\<lparr>level := level (L ! j)\<rparr> = L ! j \<and>
          (j \<notin> insert i P \<longrightarrow> links g' ! j = L ! j)"
    proof (rule allI, rule impI)
    fix j assume j: "j < length L"
    show "(links g' ! j)\<lparr>level := level (L ! j)\<rparr> = L ! j \<and>
          (j \<notin> insert i P \<longrightarrow> links g' ! j = L ! j)"
    proof (cases "j = i")
      case True
      then show ?thesis using lki by (simp add: d_def)
    next
      case False
      then show ?thesis using fr j lkj[OF False] by (simp add: frame_def)
    qed
    qed
  qed
  have c4: "occupied L (insert i P) g' lv'"
    unfolding occupied_def
  proof
    fix j assume "j \<in> insert i P"
    then consider "j = i" | "j \<in> P" by auto
    then show "\<exists>m\<ge>1. level (links g' ! j) = Some (int m * dir (L ! j)) \<and>
        (\<forall>k\<in>set (linkSpan (L ! j)). int m * dir (L ! j) \<in> set (the (lv' k)))"
    proof cases
      case 1
      have "level (links g' ! i) = Some (int m * dir (L ! i))" using lki by (simp add: l_def d_def)
      moreover have "\<forall>k\<in>set (linkSpan (L ! i)). int m * dir (L ! i) \<in> set (the (lv' k))"
        unfolding lv'_def by (simp add: marked_in d_def l_def)
      ultimately show ?thesis using m 1 by blast
    next
      case 2
      with oc obtain m' where "m' \<ge> 1" "level (links g ! j) = Some (int m' * dir (L ! j))"
        "\<forall>k\<in>set (linkSpan (L ! j)). int m' * dir (L ! j) \<in> set (the (lv k))"
        unfolding occupied_def by blast
      then show ?thesis using lkP[OF 2] marked_mono unfolding lv'_def by metis
    qed
  qed
  have c5: "justified L (insert i P) g' lv'"
    unfolding justified_def
  proof (intro allI impI)
    fix k x assume k: "k \<in> dom lv'" and x: "x \<in> set (the (lv' k))"
    from marked_cases[OF x[unfolded lv'_def]]
    show "\<exists>j\<in>insert i P. level (links g' ! j) = Some x \<and> k \<in> set (linkSpan (L ! j))"
    proof
      assume "x = l \<and> k \<in> set (linkSpan d)"
      then show ?thesis using lki by (auto simp: d_def)
    next
      assume "x \<in> set (the (lv k))"
      moreover have "k \<in> dom lv" using k c2 dom by simp
      ultimately obtain j where "j \<in> P" "level (links g ! j) = Some x" "k \<in> set (linkSpan (L ! j))"
        using ju unfolding justified_def by blast
      then show ?thesis using lkP by auto
    qed
  qed
  have new_old: "level (links g' ! i) \<noteq> level (links g' ! j)"
    if jP: "j \<in> P" and ov: "set (linkSpan (L ! i)) \<inter> set (linkSpan (L ! j)) \<noteq> {}" for j
  proof -
    from ov obtain k where ki: "k \<in> set (linkSpan d)" and kj: "k \<in> set (linkSpan (L ! j))"
      by (auto simp: d_def)
    from oc jP obtain m' where lj: "level (links g ! j) = Some (int m' * dir (L ! j))"
      and mk: "\<forall>k\<in>set (linkSpan (L ! j)). int m' * dir (L ! j) \<in> set (the (lv k))"
      unfolding occupied_def by blast
    have "int m' * dir (L ! j) \<in> set (the (lv k))" using mk kj by blast
    moreover have "l \<notin> set (the (lv k))" using freeOn_D[OF free ki] by (simp add: l_def)
    ultimately have "l \<noteq> int m' * dir (L ! j)" by auto
    then show ?thesis using lki lkP[OF jP] lj by simp
  qed
  have c6: "apart L (insert i P) g'"
    unfolding apart_def
  proof (intro ballI impI)
    fix a b assume a: "a \<in> insert i P" and b: "b \<in> insert i P" and ab: "a \<noteq> b"
      and ov: "set (linkSpan (L ! a)) \<inter> set (linkSpan (L ! b)) \<noteq> {}"
    consider "a = i" "b \<in> P" | "b = i" "a \<in> P" | "a \<in> P" "b \<in> P" using a b ab by auto
    then show "level (links g' ! a) \<noteq> level (links g' ! b)"
    proof cases
      case 1
      then show ?thesis using new_old[of b] ov by simp
    next
      case 2
      have "set (linkSpan (L ! i)) \<inter> set (linkSpan (L ! a)) \<noteq> {}" using ov 2 by auto
      then show ?thesis using new_old[of a] 2 by auto
    next
      case 3
      then show ?thesis using ap ab ov lkP unfolding apart_def by auto
    qed
  qed
  have c7: "topMax L (insert i P) g'"
  proof -
    from tm have t0: "0 \<le> maxTopLevel g"
      and t1: "\<And>j l. j \<in> P \<Longrightarrow> dir (L ! j) = 1 \<Longrightarrow> level (links g ! j) = Some l \<Longrightarrow> l \<le> maxTopLevel g"
      and t2: "maxTopLevel g = 0 \<or> (\<exists>i\<in>P. dir (L ! i) = 1 \<and> level (links g ! i) = Some (maxTopLevel g))"
      unfolding topMax_def by blast+
    show ?thesis
    proof (cases "dir d = 1")
      case True
      have lm: "l = int m" using True by (simp add: l_def)
      have mt': "maxTopLevel g' = max (maxTopLevel g) (int m)" using mt True by simp
      have "0 \<le> maxTopLevel g'" using t0 mt' by simp
      moreover have "\<forall>j\<in>insert i P. dir (L ! j) = 1 \<longrightarrow>
          (\<forall>x. level (links g' ! j) = Some x \<longrightarrow> x \<le> maxTopLevel g')"
      proof (intro ballI impI allI)
        fix j x assume j: "j \<in> insert i P" and dj: "dir (L ! j) = 1" and x: "level (links g' ! j) = Some x"
        show "x \<le> maxTopLevel g'"
        proof (cases "j = i")
          case True
          then show ?thesis using x lki lm mt' by simp
        next
          case False
          then have "j \<in> P" using j by simp
          then show ?thesis using t1[OF _ dj] x lkP mt' by fastforce
        qed
      qed
      moreover have "maxTopLevel g' = 0 \<or>
          (\<exists>j\<in>insert i P. dir (L ! j) = 1 \<and> level (links g' ! j) = Some (maxTopLevel g'))"
      proof (cases "maxTopLevel g < int m")
        case True
        then have "maxTopLevel g' = l" using mt' lm by simp
        then show ?thesis using lki \<open>dir d = 1\<close> by (auto simp: d_def)
      next
        case False
        then have "maxTopLevel g' = maxTopLevel g" using mt' by simp
        then show ?thesis using t2 lkP by auto
      qed
      ultimately show ?thesis unfolding topMax_def by blast
    next
      case False
      then have mt': "maxTopLevel g' = maxTopLevel g" using mt by simp
      have "\<forall>j\<in>insert i P. dir (L ! j) = 1 \<longrightarrow>
          (\<forall>x. level (links g' ! j) = Some x \<longrightarrow> x \<le> maxTopLevel g')"
        using False t1 lkP mt' by (auto simp: d_def)
      moreover have "maxTopLevel g' = 0 \<or>
          (\<exists>j\<in>insert i P. dir (L ! j) = 1 \<and> level (links g' ! j) = Some (maxTopLevel g'))"
        using t2 lkP mt' by auto
      ultimately show ?thesis using t0 mt' unfolding topMax_def by simp
    qed
  qed
  have c8: "bottomMin L (insert i P) g'"
  proof -
    from bm have t0: "maxBottomLevel g \<le> 0"
      and t1: "\<And>j l. j \<in> P \<Longrightarrow> dir (L ! j) = - 1 \<Longrightarrow> level (links g ! j) = Some l \<Longrightarrow> maxBottomLevel g \<le> l"
      and t2: "maxBottomLevel g = 0 \<or> (\<exists>i\<in>P. dir (L ! i) = - 1 \<and> level (links g ! i) = Some (maxBottomLevel g))"
      unfolding bottomMin_def by blast+
    show ?thesis
    proof (cases "dir d = - 1")
      case True
      have lm: "l = - int m" using True by (simp add: l_def)
      have mb': "maxBottomLevel g' = min (maxBottomLevel g) (- int m)" using mb True by simp
      have "maxBottomLevel g' \<le> 0" using t0 mb' by simp
      moreover have "\<forall>j\<in>insert i P. dir (L ! j) = - 1 \<longrightarrow>
          (\<forall>x. level (links g' ! j) = Some x \<longrightarrow> maxBottomLevel g' \<le> x)"
      proof (intro ballI impI allI)
        fix j x assume j: "j \<in> insert i P" and dj: "dir (L ! j) = - 1" and x: "level (links g' ! j) = Some x"
        show "maxBottomLevel g' \<le> x"
        proof (cases "j = i")
          case True
          then show ?thesis using x lki lm mb' by simp
        next
          case False
          then have "j \<in> P" using j by simp
          then show ?thesis using t1[OF _ dj] x lkP mb' by fastforce
        qed
      qed
      moreover have "maxBottomLevel g' = 0 \<or>
          (\<exists>j\<in>insert i P. dir (L ! j) = - 1 \<and> level (links g' ! j) = Some (maxBottomLevel g'))"
      proof (cases "- int m < maxBottomLevel g")
        case True
        then have "maxBottomLevel g' = l" using mb' lm by simp
        then show ?thesis using lki \<open>dir d = - 1\<close> by (auto simp: d_def)
      next
        case False
        then have "maxBottomLevel g' = maxBottomLevel g" using mb' by simp
        then show ?thesis using t2 lkP by auto
      qed
      ultimately show ?thesis unfolding bottomMin_def by blast
    next
      case False
      then have mb': "maxBottomLevel g' = maxBottomLevel g" using mb by simp
      have "\<forall>j\<in>insert i P. dir (L ! j) = - 1 \<longrightarrow>
          (\<forall>x. level (links g' ! j) = Some x \<longrightarrow> maxBottomLevel g' \<le> x)"
        using False t1 lkP mb' by (auto simp: d_def)
      moreover have "maxBottomLevel g' = 0 \<or>
          (\<exists>j\<in>insert i P. dir (L ! j) = - 1 \<and> level (links g' ! j) = Some (maxBottomLevel g'))"
        using t2 lkP mb' by auto
      ultimately show ?thesis using t0 mb' unfolding bottomMin_def by simp
    qed
  qed
  have "layoutInv L n (insert i P) (g', lv')"
    unfolding layoutInv_def using c1 c2 c3 c4 c5 c6 c7 c8 nd nn by simp
  then show ?thesis using res unfolding lv'_def l_def by blast
qed

lemma frame_fields:
  assumes "frame L P g" "i < length L"
  shows "start (links g ! i) = start (L ! i)" "distance (links g ! i) = distance (L ! i)"
    "source (links g ! i) = source (L ! i)" "target (links g ! i) = target (L ! i)"
    "dir (links g ! i) = dir (L ! i)" "end' (links g ! i) = end' (L ! i)"
    "rargname (links g ! i) = rargname (L ! i)" "post (links g ! i) = post (L ! i)"
proof -
  from assms have eq: "(links g ! i)\<lparr>level := level (L ! i)\<rparr> = L ! i" by (simp add: frame_def)
  show "start (links g ! i) = start (L ! i)" using arg_cong[OF eq, of start] by simp
  show "distance (links g ! i) = distance (L ! i)" using arg_cong[OF eq, of distance] by simp
  show "source (links g ! i) = source (L ! i)" using arg_cong[OF eq, of source] by simp
  show "target (links g ! i) = target (L ! i)" using arg_cong[OF eq, of target] by simp
  show "dir (links g ! i) = dir (L ! i)" using arg_cong[OF eq, of dir] by simp
  show "end' (links g ! i) = end' (L ! i)" using arg_cong[OF eq, of end'] by simp
  show "rargname (links g ! i) = rargname (L ! i)" using arg_cong[OF eq, of rargname] by simp
  show "post (links g ! i) = post (L ! i)" using arg_cong[OF eq, of post] by simp
qed

lemma frame_isTop: "frame L P g \<Longrightarrow> i < length L \<Longrightarrow> isTop (links g ! i) = isTop (L ! i)"
  by (simp add: isTop_def frame_fields)

lemma frame_linkSpan: "frame L P g \<Longrightarrow> i < length L \<Longrightarrow> linkSpan (links g ! i) = linkSpan (L ! i)"
  by (simp add: linkSpan_def frame_fields)

lemma frame_placeable: "frame L P g \<Longrightarrow> i < length L \<Longrightarrow> placeable (links g ! i) = placeable (L ! i)"
  by (simp add: placeable_def frame_isTop frame_fields)

lemma layoutInv_step:
  assumes inv: "layoutInv L n (placedBy L D \<union> placedIn L dist J) st"
    and i: "i < length L" and iJ: "i \<notin> J" and dD: "dist \<notin> D"
    and ok: "\<forall>d\<in>set L. resolvedOk n d"
  shows "\<exists>s'. levelLink dist i st = Some (Inr s') \<and>
           layoutInv L n (placedBy L D \<union> placedIn L dist (insert i J)) s'"
proof -
  obtain g lv where st: "st = (g, lv)" by (cases st)
  from inv have fr: "frame L (placedBy L D \<union> placedIn L dist J) g"
    by (simp add: st layoutInv_def)
  show ?thesis
  proof (cases "placeable (L ! i) \<and> distance (L ! i) = Some dist")
    case True
    have notin: "i \<notin> placedBy L D \<union> placedIn L dist J"
      using True iJ dD by (auto simp: placedBy_def placedIn_def)
    have ins: "placedBy L D \<union> placedIn L dist (insert i J) =
        insert i (placedBy L D \<union> placedIn L dist J)"
      using True i by (auto simp: placedIn_def)
    have "resolvedOk n (L ! i)" using ok i by simp
    from layoutInv_place[OF inv[unfolded st] i notin _ this] True
    show ?thesis unfolding st ins by blast
  next
    case False
    have same: "placedIn L dist (insert i J) = placedIn L dist J"
      using False by (auto simp: placedIn_def)
    have "isTop (links g ! i) \<or> distance (links g ! i) \<noteq> Some dist"
      using False frame_isTop[OF fr i] frame_fields(2)[OF fr i]
      by (auto simp: placeable_def)
    from levelLink_skip[OF this] show ?thesis using inv unfolding st same by simp
  qed
qed

lemma layoutInv_pass:
  assumes inv: "layoutInv L n (placedBy L D) st" and dD: "dist \<notin> D"
    and ok: "\<forall>d\<in>set L. resolvedOk n d"
  shows "\<exists>s'. levelPass dist st = Some (Inr s') \<and> layoutInv L n (placedBy L (insert dist D)) s'"
proof -
  have len: "length (links (fst st)) = length L"
    using inv by (cases st) (simp add: layoutInv_def frame_def)
  have e: "placedIn L dist {} = {}" by (simp add: placedIn_def)
  have "\<exists>s'. forEach (levelLink dist) [0..<length L] st = Some (Inr s') \<and>
      layoutInv L n (placedBy L D \<union> placedIn L dist ({} \<union> set [0..<length L])) s'"
  proof (rule forEach_rule[where I = "\<lambda>J s. layoutInv L n (placedBy L D \<union> placedIn L dist J) s"])
    show "distinct [0..<length L]" by simp
    show "set [0..<length L] \<inter> {} = {}" by simp
    show "layoutInv L n (placedBy L D \<union> placedIn L dist {}) st" using inv e by simp
    show "\<And>x J s. x \<in> set [0..<length L] \<Longrightarrow> x \<notin> J \<Longrightarrow>
        layoutInv L n (placedBy L D \<union> placedIn L dist J) s \<Longrightarrow>
        \<exists>s'. levelLink dist x s = Some (Inr s') \<and>
             layoutInv L n (placedBy L D \<union> placedIn L dist (insert x J)) s'"
      using layoutInv_step[OF _ _ _ dD ok] by simp
  qed
  moreover have "placedBy L D \<union> placedIn L dist ({} \<union> set [0..<length L]) = placedBy L (insert dist D)"
    by (auto simp: placedBy_def placedIn_def)
  ultimately show ?thesis by (simp add: levelPass_def len)
qed

lemma layoutInv_passes:
  assumes inv: "layoutInv L n {} st" and ok: "\<forall>d\<in>set L. resolvedOk n d"
  shows "\<exists>s'. forEach levelPass [0..<n] st = Some (Inr s') \<and>
           layoutInv L n {i. i < length L \<and> placeable (L ! i)} s'"
proof -
  have e: "placedBy L {} = {}" by (simp add: placedBy_def)
  have "\<exists>s'. forEach levelPass [0..<n] st = Some (Inr s') \<and>
      layoutInv L n (placedBy L ({} \<union> set [0..<n])) s'"
  proof (rule forEach_rule[where I = "\<lambda>D s. layoutInv L n (placedBy L D) s"])
    show "distinct [0..<n]" by simp
    show "set [0..<n] \<inter> {} = {}" by simp
    show "layoutInv L n (placedBy L {}) st" using inv e by simp
    show "\<And>x D s. x \<in> set [0..<n] \<Longrightarrow> x \<notin> D \<Longrightarrow> layoutInv L n (placedBy L D) s \<Longrightarrow>
        \<exists>s'. levelPass x s = Some (Inr s') \<and> layoutInv L n (placedBy L (insert x D)) s'"
      using layoutInv_pass[OF _ _ ok] by simp
  qed
  moreover have "placedBy L ({} \<union> set [0..<n]) = {i. i < length L \<and> placeable (L ! i)}"
  proof -
    have "k < n" if "i < length L" "placeable (L ! i)" "distance (L ! i) = Some k" for i k
    proof -
      have "resolvedOk n (L ! i)" using ok that(1) by simp
      then show ?thesis using that(2,3)
        by (auto simp: resolvedOk_def placeable_def absDiff_def split: option.splits if_splits)
    qed
    then show ?thesis by (auto simp: placedBy_def placeable_def)
  qed
  ultimately show ?thesis by simp
qed

lemma indexNodes_levelIdx:
  "snd (indexNodes ds i (ni, li)) = (\<lambda>k. if i \<le> k \<and> k < i + length ds then Some [] else li k)"
proof (induction ds arbitrary: i ni li)
  case Nil
  show ?case by (auto simp: fun_eq_iff)
next
  case (Cons d ds)
  show ?case by (simp add: Cons.IH) (auto simp: fun_eq_iff)
qed

lemma objectPut_cases: "objectPut ni k i s = Some v \<Longrightarrow> ni s = Some v \<or> v = i"
  by (auto simp: objectPut_def split: if_splits)

lemma objectPut_dom: "dom (objectPut ni k i) = dom ni \<union> ({k} - {''__proto__''})"
  by (auto simp: objectPut_def)

lemma indexNodes_nodeIdx:
  "fst (indexNodes ds i (ni, li)) s = Some v \<Longrightarrow> ni s = Some v \<or> (i \<le> v \<and> v < i + length ds)"
proof (induction ds arbitrary: i ni li)
  case Nil
  then show ?case by simp
next
  case (Cons d ds)
  from Cons.prems
  have "fst (indexNodes ds (Suc i) (objectPut ni (id_node d) i, li(i \<mapsto> []))) s = Some v"
    by simp
  from Cons.IH[OF this] show ?case by (auto dest: objectPut_cases)
qed

lemma nodeIndex_bound: "nodeIndex g s = Some v \<Longrightarrow> v < length (nodes g)"
  using indexNodes_nodeIdx[of "nodes g" 0 Map.empty Map.empty s v] by (simp add: nodeIndex_def)

lemma resolveLink_isTop: "isTop (resolveLink ni d) = isTop d"
  by (simp add: resolveLink_def isTop_def Let_def)

lemma resolveLink_ok:
  assumes "\<And>s v. ni s = Some v \<Longrightarrow> v < n"
  shows "resolvedOk n (resolveLink ni d)"
  using assms by (auto simp: resolvedOk_def resolveLink_def isTop_def Let_def)

lemma resolvedLinks_ok: "\<forall>d\<in>set (resolvedLinks g). resolvedOk (length (nodes g)) d"
  by (auto simp: resolvedLinks_def intro!: resolveLink_ok nodeIndex_bound)

lemma assignLevels_unfold:
  "assignLevels g =
     forEach levelPass [0..<length (nodes g)]
       (resolvedGraph g, emptyLevels (length (nodes g)))"
proof -
  obtain ni li where il: "indexNodes (nodes g) 0 (Map.empty, Map.empty) = (ni, li)"
    by (cases "indexNodes (nodes g) 0 (Map.empty, Map.empty)")
  have "ni = nodeIndex g" by (simp add: nodeIndex_def il)
  moreover have "li = emptyLevels (length (nodes g))"
    using indexNodes_levelIdx[of "nodes g" 0 Map.empty Map.empty] by (simp add: il emptyLevels_def)
  ultimately show ?thesis
    by (simp add: assignLevels_def il resolvedLinks_def resolvedGraph_def Let_def)
qed

lemma layoutInv_init:
  "layoutInv (resolvedLinks g) (length (nodes g)) {}
     (resolvedGraph g, emptyLevels (length (nodes g)))"
  by (auto simp: layoutInv_def frame_def occupied_def justified_def apart_def topMax_def
      bottomMin_def dom_def resolvedGraph_def emptyLevels_def)

lemma assignLevels_layout:
  "\<exists>g' lv. assignLevels g = Some (Inr (g', lv)) \<and>
     layoutInv (resolvedLinks g) (length (nodes g))
       {i. i < length (resolvedLinks g) \<and> placeable (resolvedLinks g ! i)} (g', lv)"
  using layoutInv_passes[OF layoutInv_init resolvedLinks_ok, of g]
  by (simp add: assignLevels_unfold)

lemma prepareGraph_assignLevels:
  "assignLevels g = Some (Inr (g', lv)) \<Longrightarrow> prepareGraph g = Some (Inr (g'\<lparr>sticky := False\<rparr>))"
  by (simp add: prepareGraph_def)

subsection \<open>Direction 0\<close>

text \<open>
  With direction 0 the candidate never moves: level 0 is marked at the first round and
  the loop condition \<^verbatim>\<open>level == 0\<close> stays true, so the search does not return.
\<close>

lemma levelSearch_zero_stuck:
  assumes "levelSearch sp dr cur lv = Some r"
  shows "\<not> (dr = 0 \<and> cur = 0 \<and> set sp \<subseteq> dom lv)"
proof (rule levelSearch.raw_induct[where P = "\<lambda>sp dr cur lv r. \<not> (dr = 0 \<and> cur = 0 \<and> set sp \<subseteq> dom lv)",
      OF _ assms])
  fix f :: "nat list \<Rightarrow> int \<Rightarrow> int \<Rightarrow> levelIdx \<Rightarrow> (error + int \<times> levelIdx) option"
    and sp dr curLevel lvlIdx y
  assume IH: "\<And>sp dr cur lv y. f sp dr cur lv = Some y \<Longrightarrow> \<not> (dr = 0 \<and> cur = 0 \<and> set sp \<subseteq> dom lv)"
    and step: "(case spanFree sp curLevel lvlIdx of
        Inl e \<Rightarrow> Some (Inl e)
      | Inr success \<Rightarrow>
          if success then
            (case markSpan sp curLevel lvlIdx of
               Inl e \<Rightarrow> Some (Inl e)
             | Inr lvlIdx' \<Rightarrow>
                 if curLevel = 0 then f sp dr curLevel lvlIdx'
                 else Some (Inr (curLevel, lvlIdx')))
          else f sp dr (curLevel + dr) lvlIdx) = Some y"
  show "\<not> (dr = 0 \<and> curLevel = 0 \<and> set sp \<subseteq> dom lvlIdx)"
  proof
    assume h: "dr = 0 \<and> curLevel = 0 \<and> set sp \<subseteq> dom lvlIdx"
    show False
    proof (cases "freeOn sp curLevel lvlIdx")
      case True
      have "f sp dr curLevel (marked sp curLevel lvlIdx) = Some y"
        using h step True by (simp add: spanFree_dom markSpan_dom)
      moreover have "set sp \<subseteq> dom (marked sp curLevel lvlIdx)"
        using h by (simp add: dom_marked)
      ultimately show False using IH h by blast
    next
      case False
      have "f sp dr (curLevel + dr) lvlIdx = Some y"
        using h step False by (simp add: spanFree_dom)
      then show False using IH[of sp dr "curLevel + dr" lvlIdx] h by simp
    qed
  qed
qed

lemma levelSearch_zero_direction:
  "set sp \<subseteq> dom lvlIdx \<Longrightarrow> levelSearch sp 0 0 lvlIdx = None"
  using levelSearch_zero_stuck[of sp 0 0 lvlIdx] by (cases "levelSearch sp 0 0 lvlIdx") auto

subsection \<open>The graph after the layout pass\<close>

declare levelSearch.simps [code]

lemma prepareGraph_example: "prepareGraph exampleGraph = Some (Inr exampleLayout)"
  by code_simp

lemma resolved_placeable:
  assumes "resolvedOk n d" "\<not> isTop d"
  shows "placeable d \<longleftrightarrow> source d \<noteq> None \<and> target d \<noteq> None"
  using assms by (auto simp: resolvedOk_def placeable_def absDiff_def split: option.splits)

lemma linkSpan_nonempty: "k \<in> set (linkSpan d) \<Longrightarrow> source d \<noteq> None \<and> target d \<noteq> None"
  by (cases "source d"; cases "target d") (auto simp: linkSpan_def gaps_def split: if_splits)

lemma linkSpan_Some:
  "source d = Some s \<Longrightarrow> target d = Some t \<Longrightarrow> linkSpan d = [min s t..<max s t]"
  by (auto simp: linkSpan_def gaps_def jsGreater_def min_def max_def)

text \<open>What the invariant says about the graph \<^verbatim>\<open>prepareGraph\<close> returns.\<close>

lemma prepareGraph_layout:
  "\<exists>g' lv. prepareGraph g = Some (Inr (g'\<lparr>sticky := False\<rparr>)) \<and>
     assignLevels g = Some (Inr (g', lv)) \<and>
     layoutInv (resolvedLinks g) (length (nodes g))
       {i. i < length (resolvedLinks g) \<and> placeable (resolvedLinks g ! i)} (g', lv)"
  using assignLevels_layout[of g] prepareGraph_assignLevels[of g] by blast

lemma frame_resolved:
  assumes fr: "frame (resolvedLinks g) P g'" and i: "i < length (links g)"
  shows "\<not> isTop (links g' ! i) \<Longrightarrow> source (links g' ! i) \<noteq> None \<Longrightarrow>
         target (links g' ! i) \<noteq> None \<Longrightarrow> placeable (resolvedLinks g ! i)"
    and "linkSpan (links g' ! i) = linkSpan (resolvedLinks g ! i)"
    and "dir (links g' ! i) = dir (resolvedLinks g ! i)"
    and "isTop (links g' ! i) = isTop (links g ! i)"
proof -
  have i': "i < length (resolvedLinks g)" using i by (simp add: resolvedLinks_def)
  have ok: "resolvedOk (length (nodes g)) (resolvedLinks g ! i)"
    using resolvedLinks_ok i' by (metis nth_mem)
  show "\<not> isTop (links g' ! i) \<Longrightarrow> source (links g' ! i) \<noteq> None \<Longrightarrow>
         target (links g' ! i) \<noteq> None \<Longrightarrow> placeable (resolvedLinks g ! i)"
    using resolved_placeable[OF ok] frame_isTop[OF fr i'] frame_fields(3,4)[OF fr i'] by simp
  show "linkSpan (links g' ! i) = linkSpan (resolvedLinks g ! i)" by (rule frame_linkSpan[OF fr i'])
  show "dir (links g' ! i) = dir (resolvedLinks g ! i)" by (rule frame_fields(5)[OF fr i'])
  show "isTop (links g' ! i) = isTop (links g ! i)"
    using frame_isTop[OF fr i'] i by (simp add: resolvedLinks_def resolveLink_isTop)
qed

lemma forEach_preserves:
  assumes "\<And>x s s'. f x s = Some (Inr s') \<Longrightarrow> Q s \<Longrightarrow> Q s'"
  shows "forEach f xs s = Some (Inr s') \<Longrightarrow> Q s \<Longrightarrow> Q s'"
proof (induction xs arbitrary: s)
  case Nil
  then show ?case by simp
next
  case (Cons x xs)
  from Cons.prems(1) obtain s1 where s1: "f x s = Some (Inr s1)" and r: "forEach f xs s1 = Some (Inr s')"
    by (auto split: option.splits sum.splits)
  from assms[OF s1 Cons.prems(2)] have "Q s1" .
  from Cons.IH[OF r this] show ?case .
qed

lemma placeLink_nodes:
  "placeLink i (g, lv) = Some (Inr (g', lv')) \<Longrightarrow> nodes g' = nodes g \<and> sticky g' = sticky g"
  by (auto simp: placeLink_def Let_def split: option.splits sum.splits if_splits)

lemma levelLink_nodes:
  "levelLink dist i s = Some (Inr s') \<Longrightarrow>
   nodes (fst s) = ns \<and> sticky (fst s) = b \<Longrightarrow> nodes (fst s') = ns \<and> sticky (fst s') = b"
  using placeLink_nodes[of i "fst s" "snd s" "fst s'" "snd s'"]
  by (auto simp: levelLink_def Let_def split: if_splits)

lemma levelPass_nodes:
  "levelPass dist s = Some (Inr s') \<Longrightarrow>
   nodes (fst s) = ns \<and> sticky (fst s) = b \<Longrightarrow> nodes (fst s') = ns \<and> sticky (fst s') = b"
  unfolding levelPass_def
  by (rule forEach_preserves[where Q = "\<lambda>s. nodes (fst s) = ns \<and> sticky (fst s) = b"
        and f = "levelLink dist"]) (rule levelLink_nodes)

lemma assignLevels_nodes:
  assumes "assignLevels g = Some (Inr (g', lv))"
  shows "nodes g' = nodes g \<and> sticky g' = sticky g"
proof -
  have "nodes (fst (g', lv)) = nodes g \<and> sticky (fst (g', lv)) = sticky g"
  proof (rule forEach_preserves[where Q = "\<lambda>s. nodes (fst s) = nodes g \<and> sticky (fst s) = sticky g"
        and f = levelPass])
    show "forEach levelPass [0..<length (nodes g)] (resolvedGraph g, emptyLevels (length (nodes g))) =
        Some (Inr (g', lv))"
      using assms by (simp add: assignLevels_unfold)
    show "nodes (fst (resolvedGraph g, emptyLevels (length (nodes g)))) = nodes g \<and>
        sticky (fst (resolvedGraph g, emptyLevels (length (nodes g)))) = sticky g"
      by (simp add: resolvedGraph_def)
  qed (rule levelPass_nodes)
  then show ?thesis by simp
qed

text \<open>The facts about the returned graph that the claims use, link by link.\<close>

lemma prepareGraph_facts:
  "\<exists>g'. prepareGraph g = Some (Inr g') \<and>
     length (links g') = length (links g) \<and> nodes g' = nodes g \<and>
     0 \<le> maxTopLevel g' \<and> maxBottomLevel g' \<le> 0 \<and>
     (\<forall>i<length (links g). placed (links g' ! i) \<longrightarrow>
        (\<exists>m\<ge>1. level (links g' ! i) = Some (int m * dir (links g' ! i))) \<and>
        (dir (links g' ! i) = 1 \<or> dir (links g' ! i) = - 1) \<and>
        (dir (links g' ! i) = 1 \<longrightarrow> (\<forall>l. level (links g' ! i) = Some l \<longrightarrow> l \<le> maxTopLevel g')) \<and>
        (dir (links g' ! i) = - 1 \<longrightarrow> (\<forall>l. level (links g' ! i) = Some l \<longrightarrow> maxBottomLevel g' \<le> l))) \<and>
     (maxTopLevel g' = 0 \<or>
        (\<exists>i<length (links g). placed (links g' ! i) \<and> dir (links g' ! i) = 1 \<and>
            level (links g' ! i) = Some (maxTopLevel g'))) \<and>
     (maxBottomLevel g' = 0 \<or>
        (\<exists>i<length (links g). placed (links g' ! i) \<and> dir (links g' ! i) = - 1 \<and>
            level (links g' ! i) = Some (maxBottomLevel g')))"
proof -
  define L where "L = resolvedLinks g"
  define P where "P = {i. i < length L \<and> placeable (L ! i)}"
  from prepareGraph_layout[of g] obtain g1 lv
    where p: "prepareGraph g = Some (Inr (g1\<lparr>sticky := False\<rparr>))"
      and a: "assignLevels g = Some (Inr (g1, lv))"
      and inv: "layoutInv L (length (nodes g)) P (g1, lv)"
    unfolding L_def P_def by blast
  from inv have fr: "frame L P g1" and oc: "occupied L P g1 lv" and tm: "topMax L P g1"
    and bm: "bottomMin L P g1" and nn: "length (nodes g1) = length (nodes g)"
    by (simp_all add: layoutInv_def)
  have len: "length (links g1) = length (links g)" "length L = length (links g)"
    using fr by (simp_all add: frame_def L_def resolvedLinks_def)
  have inP: "i \<in> P" if "i < length (links g)" "placed (links g1 ! i)" for i
    using frame_resolved(1)[OF fr[unfolded L_def] that(1)] that len
    by (simp add: placed_def P_def L_def)
  have Pin: "i < length (links g) \<and> placed (links g1 ! i)" if "i \<in> P" for i
  proof -
    from that have i: "i < length L" and pl: "placeable (L ! i)" by (simp_all add: P_def)
    have ok: "resolvedOk (length (nodes g)) (L ! i)"
      using resolvedLinks_ok i unfolding L_def by (metis nth_mem)
    have "\<not> isTop (L ! i)" using pl by (simp add: placeable_def)
    moreover from resolved_placeable[OF ok this] pl
    have "source (L ! i) \<noteq> None \<and> target (L ! i) \<noteq> None" by simp
    ultimately show ?thesis
      using frame_isTop[OF fr i] frame_fields(3,4)[OF fr i] i len by (simp add: placed_def)
  qed
  have dirL: "dir (links g1 ! i) = dir (L ! i)" if "i < length (links g)" for i
    using frame_fields(5)[OF fr] that len by simp
  have okdir: "dir (L ! i) = 1 \<or> dir (L ! i) = - 1" if "i \<in> P" for i
  proof -
    from that have i: "i < length L" and pl: "placeable (L ! i)" by (simp_all add: P_def)
    have "resolvedOk (length (nodes g)) (L ! i)"
      using resolvedLinks_ok i unfolding L_def by (metis nth_mem)
    then show ?thesis using pl by (auto simp: resolvedOk_def placeable_def)
  qed
  define r where "r = g1\<lparr>sticky := False\<rparr>"
  have lr: "links r = links g1" "maxTopLevel r = maxTopLevel g1"
    "maxBottomLevel r = maxBottomLevel g1" "nodes r = nodes g1" by (simp_all add: r_def)
  have ndd: "nodes g1 = nodes g" using assignLevels_nodes[OF a] by simp
  have c1: "\<forall>i<length (links g). placed (links g1 ! i) \<longrightarrow>
        (\<exists>m\<ge>1. level (links g1 ! i) = Some (int m * dir (links g1 ! i))) \<and>
        (dir (links g1 ! i) = 1 \<or> dir (links g1 ! i) = - 1) \<and>
        (dir (links g1 ! i) = 1 \<longrightarrow> (\<forall>l. level (links g1 ! i) = Some l \<longrightarrow> l \<le> maxTopLevel g1)) \<and>
        (dir (links g1 ! i) = - 1 \<longrightarrow> (\<forall>l. level (links g1 ! i) = Some l \<longrightarrow> maxBottomLevel g1 \<le> l))"
  proof (intro allI impI)
    fix i assume i: "i < length (links g)" and pl: "placed (links g1 ! i)"
    have iP: "i \<in> P" using inP[OF i pl] .
    from oc iP obtain m where "m \<ge> 1" "level (links g1 ! i) = Some (int m * dir (L ! i))"
      unfolding occupied_def by blast
    then have "\<exists>m\<ge>1. level (links g1 ! i) = Some (int m * dir (links g1 ! i))"
      using dirL[OF i] by auto
    moreover have "dir (links g1 ! i) = 1 \<or> dir (links g1 ! i) = - 1"
      using okdir[OF iP] dirL[OF i] by simp
    moreover have "dir (links g1 ! i) = 1 \<longrightarrow> (\<forall>l. level (links g1 ! i) = Some l \<longrightarrow> l \<le> maxTopLevel g1)"
      using tm iP dirL[OF i] unfolding topMax_def by auto
    moreover have "dir (links g1 ! i) = - 1 \<longrightarrow> (\<forall>l. level (links g1 ! i) = Some l \<longrightarrow> maxBottomLevel g1 \<le> l)"
      using bm iP dirL[OF i] unfolding bottomMin_def by auto
    ultimately show "(\<exists>m\<ge>1. level (links g1 ! i) = Some (int m * dir (links g1 ! i))) \<and>
        (dir (links g1 ! i) = 1 \<or> dir (links g1 ! i) = - 1) \<and>
        (dir (links g1 ! i) = 1 \<longrightarrow> (\<forall>l. level (links g1 ! i) = Some l \<longrightarrow> l \<le> maxTopLevel g1)) \<and>
        (dir (links g1 ! i) = - 1 \<longrightarrow> (\<forall>l. level (links g1 ! i) = Some l \<longrightarrow> maxBottomLevel g1 \<le> l))"
      by blast
  qed
  have c2: "maxTopLevel g1 = 0 \<or>
        (\<exists>i<length (links g). placed (links g1 ! i) \<and> dir (links g1 ! i) = 1 \<and>
            level (links g1 ! i) = Some (maxTopLevel g1))"
  proof (cases "maxTopLevel g1 = 0")
    case False
    with tm obtain i where "i \<in> P" "dir (L ! i) = 1" "level (links g1 ! i) = Some (maxTopLevel g1)"
      unfolding topMax_def by blast
    then show ?thesis using Pin[of i] dirL[of i] by auto
  qed simp
  have c3: "maxBottomLevel g1 = 0 \<or>
        (\<exists>i<length (links g). placed (links g1 ! i) \<and> dir (links g1 ! i) = - 1 \<and>
            level (links g1 ! i) = Some (maxBottomLevel g1))"
  proof (cases "maxBottomLevel g1 = 0")
    case False
    with bm obtain i where "i \<in> P" "dir (L ! i) = - 1" "level (links g1 ! i) = Some (maxBottomLevel g1)"
      unfolding bottomMin_def by blast
    then show ?thesis using Pin[of i] dirL[of i] by auto
  qed simp
  have c0: "0 \<le> maxTopLevel g1" "maxBottomLevel g1 \<le> 0"
    using tm bm by (simp_all add: topMax_def bottomMin_def)
  have "prepareGraph g = Some (Inr r)" using p by (simp add: r_def)
  moreover have "length (links r) = length (links g)" "nodes r = nodes g"
    using len ndd lr by simp_all
  moreover have "0 \<le> maxTopLevel r" "maxBottomLevel r \<le> 0" using c0 lr by simp_all
  ultimately show ?thesis using c1 c2 c3 unfolding lr[symmetric] by blast
qed

lemma placedLevels_iff:
  "l \<in> set (placedLevels dr g) \<longleftrightarrow>
     (\<exists>i<length (links g). placed (links g ! i) \<and> dir (links g ! i) = dr \<and> level (links g ! i) = Some l)"
proof
  assume "l \<in> set (placedLevels dr g)"
  then obtain d where "d \<in> set (links g)" "placed d" "dir d = dr" "level d = Some l"
    by (auto simp: placedLevels_def split: option.splits if_splits)
  then show "\<exists>i<length (links g). placed (links g ! i) \<and> dir (links g ! i) = dr \<and> level (links g ! i) = Some l"
    by (metis in_set_conv_nth)
next
  assume "\<exists>i<length (links g). placed (links g ! i) \<and> dir (links g ! i) = dr \<and> level (links g ! i) = Some l"
  then obtain i where "i < length (links g)" "placed (links g ! i)" "dir (links g ! i) = dr"
    "level (links g ! i) = Some l" by blast
  then show "l \<in> set (placedLevels dr g)"
    by (force simp: placedLevels_def)
qed

lemma resolveLink_fields:
  "level (resolveLink ni d) = level d"
  "target (resolveLink ni d) = ni (end' d)"
  "start (resolveLink ni d) = start d"
  "end' (resolveLink ni d) = end' d"
  "isTop d \<Longrightarrow> dir (resolveLink ni d) = 1"
  "\<not> isTop d \<Longrightarrow> source (resolveLink ni d) = ni (start d)"
  "\<not> isTop d \<Longrightarrow> distance (resolveLink ni d) = absDiff (ni (start d)) (ni (end' d))"
  by (simp_all add: resolveLink_def isTop_def Let_def)

lemma indexNodes_dom:
  "dom (fst (indexNodes ds i (ni, li))) = dom ni \<union> (id_node ` set ds - {''__proto__''})"
  by (induction ds arbitrary: i ni li) (auto simp: objectPut_dom)

lemma nodeIndex_None: "nodeIndex g s = None \<longleftrightarrow> \<not> namesNode g s"
proof -
  have "dom (nodeIndex g) = id_node ` set (nodes g) - {''__proto__''}"
    using indexNodes_dom[of "nodes g" 0 Map.empty Map.empty] by (simp add: nodeIndex_def)
  then have "nodeIndex g s \<noteq> None \<longleftrightarrow> s \<in> id_node ` set (nodes g) - {''__proto__''}"
    by (metis domIff)
  then show ?thesis by (auto simp: namesNode_def)
qed

lemma frame_unplaced:
  "frame L P g \<Longrightarrow> i < length L \<Longrightarrow> i \<notin> P \<Longrightarrow> links g ! i = L ! i"
  by (simp add: frame_def)

text \<open>The returned graph together with the final \<^verbatim>\<open>levelIdx\<close>.\<close>

lemma prepareGraph_levelIdx:
  "\<exists>g' lv. prepareGraph g = Some (Inr g') \<and> assignLevels g = Some (Inr (g'\<lparr>sticky := sticky g\<rparr>, lv)) \<and>
     length (links g') = length (links g) \<and> nodes g' = nodes g \<and>
     (\<forall>i<length (links g). \<not> placeable (resolvedLinks g ! i) \<longrightarrow> links g' ! i = resolvedLinks g ! i) \<and>
     (\<forall>i<length (links g). isTop (links g' ! i) = isTop (links g ! i) \<and>
         target (links g' ! i) = nodeIndex g (end' (links g ! i))) \<and>
     (\<forall>k\<in>dom lv. \<forall>l\<in>set (the (lv k)). \<exists>j<length (links g). \<not> isTop (links g' ! j) \<and>
         level (links g' ! j) = Some l \<and> k \<in> set (linkSpan (links g' ! j)))"
proof -
  define L where "L = resolvedLinks g"
  define P where "P = {i. i < length L \<and> placeable (L ! i)}"
  from prepareGraph_layout[of g] obtain g1 lv
    where p: "prepareGraph g = Some (Inr (g1\<lparr>sticky := False\<rparr>))"
      and a: "assignLevels g = Some (Inr (g1, lv))"
      and inv: "layoutInv L (length (nodes g)) P (g1, lv)"
    unfolding L_def P_def by blast
  from inv have fr: "frame L P g1" and ju: "justified L P g1 lv"
    by (simp_all add: layoutInv_def)
  have len: "length (links g1) = length (links g)" "length L = length (links g)"
    using fr by (simp_all add: frame_def L_def resolvedLinks_def)
  define r where "r = g1\<lparr>sticky := False\<rparr>"
  have lr: "links r = links g1" "nodes r = nodes g1" by (simp_all add: r_def)
  have st: "r\<lparr>sticky := sticky g\<rparr> = g1" using assignLevels_nodes[OF a] by (simp add: r_def)
  have c1: "\<forall>i<length (links g). \<not> placeable (L ! i) \<longrightarrow> links g1 ! i = L ! i"
    using frame_unplaced[OF fr] len by (simp add: P_def)
  have c2: "\<forall>i<length (links g). isTop (links g1 ! i) = isTop (links g ! i) \<and>
         target (links g1 ! i) = nodeIndex g (end' (links g ! i))"
  proof (intro allI impI)
    fix i assume i: "i < length (links g)"
    have "target (links g1 ! i) = target (L ! i)" using frame_fields(4)[OF fr] i len by simp
    then have "target (links g1 ! i) = nodeIndex g (end' (links g ! i))"
      using i by (simp add: L_def resolvedLinks_def resolveLink_fields)
    then show "isTop (links g1 ! i) = isTop (links g ! i) \<and>
         target (links g1 ! i) = nodeIndex g (end' (links g ! i))"
      using frame_resolved(4)[OF fr[unfolded L_def] i] by simp
  qed
  have c3: "\<forall>k\<in>dom lv. \<forall>l\<in>set (the (lv k)). \<exists>j<length (links g). \<not> isTop (links g1 ! j) \<and>
         level (links g1 ! j) = Some l \<and> k \<in> set (linkSpan (links g1 ! j))"
  proof (intro ballI)
    fix k l assume "k \<in> dom lv" "l \<in> set (the (lv k))"
    with ju obtain j where j: "j \<in> P" "level (links g1 ! j) = Some l" "k \<in> set (linkSpan (L ! j))"
      unfolding justified_def by blast
    from j(1) have jl: "j < length L" and pl: "placeable (L ! j)" by (simp_all add: P_def)
    have "\<not> isTop (links g1 ! j)" using pl frame_isTop[OF fr jl] by (simp add: placeable_def)
    moreover have "k \<in> set (linkSpan (links g1 ! j))" using j(3) frame_linkSpan[OF fr jl] by simp
    ultimately show "\<exists>j<length (links g). \<not> isTop (links g1 ! j) \<and>
         level (links g1 ! j) = Some l \<and> k \<in> set (linkSpan (links g1 ! j))"
      using j(2) jl len by auto
  qed
  have "prepareGraph g = Some (Inr r)" using p by (simp add: r_def)
  moreover have "assignLevels g = Some (Inr (r\<lparr>sticky := sticky g\<rparr>, lv))" using a st by simp
  moreover have "length (links r) = length (links g)" "nodes r = nodes g"
    using len lr assignLevels_nodes[OF a] by simp_all
  ultimately show ?thesis using c1 c2 c3 unfolding lr(1)[symmetric] L_def by blast
qed

lemma placed_pathRise:
  assumes "placed d" and "level d = Some l" and "1 \<le> l"
    and "\<forall>s. source d = Some s \<longrightarrow> s < length (nodes g)"
    and "\<forall>t. target d = Some t \<longrightarrow> t < length (nodes g)"
  shows "pathRise d g = Inr (Some (l * level_dy - 5))"
  using assms by (auto simp: pathRise_def placed_def isTop_def)

lemma frame_bounds:
  assumes fr: "frame (resolvedLinks g) P g'" and i: "i < length (links g)"
    and nt: "\<not> isTop (links g' ! i)"
  shows "\<forall>s. source (links g' ! i) = Some s \<longrightarrow> s < length (nodes g)"
    and "\<forall>t. target (links g' ! i) = Some t \<longrightarrow> t < length (nodes g)"
proof -
  have i': "i < length (resolvedLinks g)" using i by (simp add: resolvedLinks_def)
  have ok: "resolvedOk (length (nodes g)) (resolvedLinks g ! i)"
    using resolvedLinks_ok i' by (metis nth_mem)
  have "\<not> isTop (resolvedLinks g ! i)" using nt frame_isTop[OF fr i'] by simp
  with ok have b: "(\<forall>s. source (resolvedLinks g ! i) = Some s \<longrightarrow> s < length (nodes g)) \<and>
      (\<forall>t. target (resolvedLinks g ! i) = Some t \<longrightarrow> t < length (nodes g))"
    by (simp add: resolvedOk_def)
  show "\<forall>s. source (links g' ! i) = Some s \<longrightarrow> s < length (nodes g)"
    using b frame_fields(3)[OF fr i'] by simp
  show "\<forall>t. target (links g' ! i) = Some t \<longrightarrow> t < length (nodes g)"
    using b frame_fields(4)[OF fr i'] by simp
qed

lemma prepareGraph_bounds:
  "\<exists>g'. prepareGraph g = Some (Inr g') \<and>
     (\<forall>i<length (links g). \<not> isTop (links g' ! i) \<longrightarrow>
        (\<forall>s. source (links g' ! i) = Some s \<longrightarrow> s < length (nodes g)) \<and>
        (\<forall>t. target (links g' ! i) = Some t \<longrightarrow> t < length (nodes g)))"
proof -
  from prepareGraph_layout[of g] obtain g1 lv
    where p: "prepareGraph g = Some (Inr (g1\<lparr>sticky := False\<rparr>))"
      and inv: "layoutInv (resolvedLinks g) (length (nodes g))
         {i. i < length (resolvedLinks g) \<and> placeable (resolvedLinks g ! i)} (g1, lv)"
    by blast
  from inv have fr: "frame (resolvedLinks g)
      {i. i < length (resolvedLinks g) \<and> placeable (resolvedLinks g ! i)} g1"
    by (simp add: layoutInv_def)
  have "\<forall>i<length (links g). \<not> isTop (links (g1\<lparr>sticky := False\<rparr>) ! i) \<longrightarrow>
        (\<forall>s. source (links (g1\<lparr>sticky := False\<rparr>) ! i) = Some s \<longrightarrow> s < length (nodes g)) \<and>
        (\<forall>t. target (links (g1\<lparr>sticky := False\<rparr>) ! i) = Some t \<longrightarrow> t < length (nodes g))"
    using frame_bounds[OF fr] by simp
  then show ?thesis using p by blast
qed

text \<open>
  The links the pass places, read off the input: a link is placed exactly when it is not
  top-level and both its identifiers name nodes; every other link leaves the pass as the
  second \<^verbatim>\<open>forEach\<close> made it.
\<close>

lemma placed_input:
  assumes fr: "frame (resolvedLinks g) P g'" and i: "i < length (links g)"
  shows "placed (links g' ! i) \<longleftrightarrow>
     \<not> isTop (links g ! i) \<and> namesNode g (start (links g ! i)) \<and> namesNode g (end' (links g ! i))"
proof -
  have i': "i < length (resolvedLinks g)" using i by (simp add: resolvedLinks_def)
  have ri: "resolvedLinks g ! i = resolveLink (nodeIndex g) (links g ! i)"
    using i by (simp add: resolvedLinks_def)
  have tp: "isTop (links g' ! i) = isTop (links g ! i)" by (rule frame_resolved(4)[OF fr i])
  have tg: "target (links g' ! i) = nodeIndex g (end' (links g ! i))"
    using frame_fields(4)[OF fr i'] by (simp add: ri resolveLink_fields)
  have sr: "\<not> isTop (links g ! i) \<Longrightarrow> source (links g' ! i) = nodeIndex g (start (links g ! i))"
    using frame_fields(3)[OF fr i'] by (simp add: ri resolveLink_fields)
  show ?thesis
    using tp tg sr nodeIndex_None[of g "start (links g ! i)"] nodeIndex_None[of g "end' (links g ! i)"]
    by (auto simp: placed_def)
qed

lemma placeable_placed:
  assumes fr: "frame (resolvedLinks g) P g'" and i: "i < length (links g)"
  shows "placeable (resolvedLinks g ! i) \<longleftrightarrow> placed (links g' ! i)"
proof -
  have i': "i < length (resolvedLinks g)" using i by (simp add: resolvedLinks_def)
  have ok: "resolvedOk (length (nodes g)) (resolvedLinks g ! i)"
    using resolvedLinks_ok i' by (metis nth_mem)
  show ?thesis
    using resolved_placeable[OF ok] frame_isTop[OF fr i'] frame_fields(3,4)[OF fr i']
    by (auto simp: placed_def placeable_def)
qed

lemma prepareGraph_input:
  "\<exists>g' lv. prepareGraph g = Some (Inr g') \<and> assignLevels g = Some (Inr (g'\<lparr>sticky := sticky g\<rparr>, lv)) \<and>
     (\<forall>i<length (links g). placed (links g' ! i) \<longleftrightarrow>
         \<not> isTop (links g ! i) \<and> namesNode g (start (links g ! i)) \<and> namesNode g (end' (links g ! i))) \<and>
     (\<forall>i<length (links g). \<not> placed (links g' ! i) \<longrightarrow>
         links g' ! i = resolveLink (nodeIndex g) (links g ! i)) \<and>
     (\<forall>k\<in>dom lv. \<forall>l\<in>set (the (lv k)). \<exists>j<length (links g). placed (links g' ! j) \<and>
         level (links g' ! j) = Some l \<and> k \<in> set (linkSpan (links g' ! j)))"
proof -
  define L where "L = resolvedLinks g"
  define P where "P = {i. i < length L \<and> placeable (L ! i)}"
  from prepareGraph_layout[of g] obtain g1 lv
    where p: "prepareGraph g = Some (Inr (g1\<lparr>sticky := False\<rparr>))"
      and a: "assignLevels g = Some (Inr (g1, lv))"
      and inv: "layoutInv L (length (nodes g)) P (g1, lv)"
    unfolding L_def P_def by blast
  from inv have fr: "frame L P g1" and ju: "justified L P g1 lv"
    by (simp_all add: layoutInv_def)
  have len: "length L = length (links g)" by (simp add: L_def resolvedLinks_def)
  define r where "r = g1\<lparr>sticky := False\<rparr>"
  have lr: "links r = links g1" by (simp add: r_def)
  have st: "r\<lparr>sticky := sticky g\<rparr> = g1" using assignLevels_nodes[OF a] by (simp add: r_def)
  have c1: "\<forall>i<length (links g). placed (links g1 ! i) \<longleftrightarrow>
         \<not> isTop (links g ! i) \<and> namesNode g (start (links g ! i)) \<and> namesNode g (end' (links g ! i))"
    using placed_input[OF fr[unfolded L_def]] by blast
  have c2: "\<forall>i<length (links g). \<not> placed (links g1 ! i) \<longrightarrow>
         links g1 ! i = resolveLink (nodeIndex g) (links g ! i)"
  proof (intro allI impI)
    fix i assume i: "i < length (links g)" and np: "\<not> placed (links g1 ! i)"
    then have "i \<notin> P" using placeable_placed[OF fr[unfolded L_def] i] by (simp add: P_def L_def)
    from frame_unplaced[OF fr _ this] i len
    show "links g1 ! i = resolveLink (nodeIndex g) (links g ! i)"
      by (simp add: L_def resolvedLinks_def)
  qed
  have c3: "\<forall>k\<in>dom lv. \<forall>l\<in>set (the (lv k)). \<exists>j<length (links g). placed (links g1 ! j) \<and>
         level (links g1 ! j) = Some l \<and> k \<in> set (linkSpan (links g1 ! j))"
  proof (intro ballI)
    fix k l assume "k \<in> dom lv" "l \<in> set (the (lv k))"
    with ju obtain j where j: "j \<in> P" "level (links g1 ! j) = Some l" "k \<in> set (linkSpan (L ! j))"
      unfolding justified_def by blast
    from j(1) have jl: "j < length L" and pl: "placeable (L ! j)" by (simp_all add: P_def)
    have jg: "j < length (links g)" using jl len by simp
    have "placed (links g1 ! j)" using pl placeable_placed[OF fr[unfolded L_def] jg] by (simp add: L_def)
    moreover have "k \<in> set (linkSpan (links g1 ! j))" using j(3) frame_linkSpan[OF fr jl] by simp
    ultimately show "\<exists>j<length (links g). placed (links g1 ! j) \<and>
         level (links g1 ! j) = Some l \<and> k \<in> set (linkSpan (links g1 ! j))"
      using j(2) jg by auto
  qed
  have "prepareGraph g = Some (Inr r)" using p by (simp add: r_def)
  moreover have "assignLevels g = Some (Inr (r\<lparr>sticky := sticky g\<rparr>, lv))" using a st by simp
  ultimately show ?thesis using c1 c2 c3 unfolding lr[symmetric] by blast
qed

lemma d3_graph_level: "d \<in> set (links (d3_graph nodeids ls)) \<Longrightarrow> level d = None"
  by (auto simp: d3_graph_def d3_link_def)

lemma linkSpan_None: "source d = None \<or> target d = None \<Longrightarrow> linkSpan d = []"
  by (auto simp: linkSpan_def gaps_def jsGreater_def split: option.splits)

lemma assignLevels_example:
  "(case assignLevels exampleGraph of Some (Inr (g1, lv)) \<Rightarrow> lv 0 | _ \<Rightarrow> None) = Some [- 2, 2, 1]"
  by code_simp

lemma upperChar_H: "upperChar c = CHR ''H'' \<longleftrightarrow> c = CHR ''H'' \<or> c = CHR ''h''"
  by (auto simp: upperChar_def split: if_splits)

lemma toUpperCase_H: "toUpperCase s = ''H'' \<longleftrightarrow> s = ''H'' \<or> s = ''h''"
  by (cases s) (auto simp: toUpperCase_def upperChar_H)

lemma resolveLink_dir:
  "\<not> isTop d \<Longrightarrow>
   dir (resolveLink ni d) = (if rargname d = '''' \<or> post d = ''H'' \<or> post d = ''h'' then - 1 else 1)"
  by (simp add: resolveLink_def isTop_def Let_def toUpperCase_H)

subsection \<open>The processing order\<close>
























subsection \<open>The label-set loop\<close>

lemma seedLabels_fold:
  "x \<in> fold (\<lambda>l acc. if post l = ''EQ'' \<and> (start l = nid \<or> end' l = nid)
                    then insert (end' l) (insert (start l) acc) else acc) ls A \<longleftrightarrow>
   x \<in> A \<or> (\<exists>l\<in>set ls. post l = ''EQ'' \<and> (start l = nid \<or> end' l = nid) \<and>
                 (x = start l \<or> x = end' l))"
  by (induction ls arbitrary: A) auto

lemma seedLabels_iff:
  "x \<in> seedLabels nid ls \<longleftrightarrow>
     (\<exists>l\<in>set ls. post l = ''EQ'' \<and> (start l = nid \<or> end' l = nid) \<and> (x = start l \<or> x = end' l))"
  by (simp add: seedLabels_def seedLabels_fold)

lemma eqEdges_iff: "(a, b) \<in> eqEdges ls \<longleftrightarrow> (\<exists>l\<in>set ls. post l = ''EQ'' \<and> start l = a \<and> end' l = b)"
  by (auto simp: eqEdges_def)

lemma seed_in_closure: "seedLabels nid ls \<subseteq> labelClosure nid ls"
proof
  fix x assume "x \<in> seedLabels nid ls"
  then obtain l where l: "l \<in> set ls" "post l = ''EQ''" "start l = nid \<or> end' l = nid"
    "x = start l \<or> x = end' l" unfolding seedLabels_iff by blast
  let ?R = "eqEdges ls \<union> (eqEdges ls)\<inverse>"
  have e: "(start l, end' l) \<in> ?R" "(end' l, start l) \<in> ?R"
    using l(1,2) by (auto simp: eqEdges_iff)
  have "(nid, x) \<in> ?R\<^sup>+"
  proof (cases "x = nid")
    case True
    from l(3) show ?thesis
    proof
      assume "start l = nid"
      then show ?thesis using e True by (metis trancl.simps)
    next
      assume "end' l = nid"
      then show ?thesis using e True by (metis trancl.simps)
    qed
  next
    case False
    then have "(nid, x) \<in> ?R" using l(3,4) e by auto
    then show ?thesis by (rule r_into_trancl)
  qed
  then show "x \<in> labelClosure nid ls" by (simp add: labelClosure_def)
qed

lemma neighbours_in_seed:
  "(nid, v) \<in> eqEdges ls \<union> (eqEdges ls)\<inverse> \<Longrightarrow> v \<in> seedLabels nid ls"
  unfolding seedLabels_iff by (auto simp: eqEdges_iff)

lemma expandPass_within:
  assumes "fold expandStep ls (S, b) = (S', b')" and "S \<subseteq> labelClosure nid ks"
    and "set ls \<subseteq> set ks"
  shows "S' \<subseteq> labelClosure nid ks"
  using assms
proof (induction ls arbitrary: S b)
  case Nil
  then show ?case by simp
next
  case (Cons l ls)
  obtain S1 b1 where s1: "expandStep l (S, b) = (S1, b1)" by (cases "expandStep l (S, b)")
  with Cons.prems have r: "fold expandStep ls (S1, b1) = (S', b')" by simp
  let ?R = "eqEdges ks \<union> (eqEdges ks)\<inverse>"
  have step: "y \<in> labelClosure nid ks" if "x \<in> S" "(x, y) \<in> ?R" for x y
  proof -
    have "(nid, x) \<in> ?R\<^sup>+" using that(1) Cons.prems(2) by (auto simp: labelClosure_def)
    then have "(nid, y) \<in> ?R\<^sup>+" using that(2) by (rule trancl.trancl_into_trancl)
    then show ?thesis by (simp add: labelClosure_def)
  qed
  have lk: "l \<in> set ks" using Cons.prems(3) by simp
  have "S1 \<subseteq> labelClosure nid ks"
  proof (cases "post l = ''EQ''")
    case True
    then have e: "(start l, end' l) \<in> ?R" "(end' l, start l) \<in> ?R"
      using lk by (auto simp: eqEdges_iff)
    show ?thesis using s1 Cons.prems(2) step[OF _ e(1)] step[OF _ e(2)] True
      by (auto simp: expandStep_def split: if_splits)
  next
    case False
    then show ?thesis using s1 Cons.prems(2) by (simp add: expandStep_def)
  qed
  from Cons.IH[OF r this] Cons.prems(3) show ?case by simp
qed

lemma expandPass_stable:
  "fold expandStep ls (S, b) = (S', False) \<Longrightarrow>
   S' = S \<and> (\<forall>l\<in>set ls. post l = ''EQ'' \<longrightarrow> (start l \<in> S \<longleftrightarrow> end' l \<in> S))"
proof (induction ls arbitrary: S b)
  case Nil
  then show ?case by simp
next
  case (Cons l ls)
  obtain S1 b1 where s1: "expandStep l (S, b) = (S1, b1)" by (cases "expandStep l (S, b)")
  with Cons.prems have r: "fold expandStep ls (S1, b1) = (S', False)" by simp
  from expandPass_grows[OF r] have b1: "\<not> b1" by auto
  with s1 have same: "S1 = S" and cl: "post l = ''EQ'' \<longrightarrow> (start l \<in> S \<longleftrightarrow> end' l \<in> S)"
    by (auto simp: expandStep_def split: if_splits)
  from Cons.IH[OF r] same cl show ?case by auto
qed

lemma stable_contains_closure:
  assumes cl: "\<forall>l\<in>set ls. post l = ''EQ'' \<longrightarrow> (start l \<in> S \<longleftrightarrow> end' l \<in> S)"
    and seed: "seedLabels nid ls \<subseteq> S"
  shows "labelClosure nid ls \<subseteq> S"
proof
  fix v assume "v \<in> labelClosure nid ls"
  then have "(nid, v) \<in> (eqEdges ls \<union> (eqEdges ls)\<inverse>)\<^sup>+" by (simp add: labelClosure_def)
  then show "v \<in> S"
  proof (induction rule: trancl_induct)
    case (base y)
    then show ?case using neighbours_in_seed[of nid y ls] seed by blast
  next
    case (step y z)
    then show ?case using cl by (auto simp: eqEdges_iff)
  qed
qed

lemma expandLabels_closure:
  "seedLabels nid ls \<subseteq> S \<Longrightarrow> S \<subseteq> labelClosure nid ls \<Longrightarrow> expandLabels ls S = labelClosure nid ls"
proof (induction ls S rule: expandLabels.induct)
  case (1 ls S)
  obtain S' b' where f: "fold expandStep ls (S, False) = (S', b')"
    by (cases "fold expandStep ls (S, False)")
  have within: "S' \<subseteq> labelClosure nid ls" using expandPass_within[OF f "1.prems"(2)] by simp
  have grows: "S \<subseteq> S'" using expandPass_grows[OF f] by simp
  show ?case
  proof (cases b')
    case True
    have "expandLabels ls S' = labelClosure nid ls"
      using "1.IH"[OF f[symmetric] True] "1.prems"(1) grows within by blast
    then show ?thesis using f True by (subst expandLabels.simps) simp
  next
    case False
    from f False have f': "fold expandStep ls (S, False) = (S', False)" by simp
    from expandPass_stable[OF f'] have same: "S' = S"
      and cl: "\<forall>l\<in>set ls. post l = ''EQ'' \<longrightarrow> (start l \<in> S \<longleftrightarrow> end' l \<in> S)" by auto
    have "labelClosure nid ls \<subseteq> S" using stable_contains_closure[OF cl "1.prems"(1)] .
    then have "S = labelClosure nid ls" using "1.prems"(2) by auto
    then show ?thesis using f False same by (subst expandLabels.simps) simp
  qed
qed

subsection \<open>The claims\<close>

text \<open>
  C1.  After \<^verbatim>\<open>prepareGraph\<close>, which returns normally on every graph, any two different
  links that are not top-level and whose spans \<open>[min source target, max source target)\<close>
  share a gap both have a level, and the two levels differ.
\<close>

theorem no_collision:
  "\<exists>g'. prepareGraph g = Some (Inr g') \<and> length (links g') = length (links g) \<and>
     (\<forall>i j. i < length (links g') \<and> j < length (links g') \<and> i \<noteq> j \<and>
           \<not> isTop (links g' ! i) \<and> \<not> isTop (links g' ! j) \<and>
           set (linkSpan (links g' ! i)) \<inter> set (linkSpan (links g' ! j)) \<noteq> {} \<longrightarrow>
        (\<exists>a b. level (links g' ! i) = Some a \<and> level (links g' ! j) = Some b \<and> a \<noteq> b))"
proof -
  define L where "L = resolvedLinks g"
  define P where "P = {i. i < length L \<and> placeable (L ! i)}"
  from prepareGraph_layout[of g] obtain g1 lv
    where p: "prepareGraph g = Some (Inr (g1\<lparr>sticky := False\<rparr>))"
      and inv: "layoutInv L (length (nodes g)) P (g1, lv)"
    unfolding L_def P_def by blast
  from inv have fr: "frame L P g1" and oc: "occupied L P g1 lv" and ap: "apart L P g1"
    by (simp_all add: layoutInv_def)
  have len: "length (links g1) = length (links g)" "length L = length (links g)"
    using fr by (simp_all add: frame_def L_def resolvedLinks_def)
  have main: "\<exists>a b. level (links g1 ! i) = Some a \<and> level (links g1 ! j) = Some b \<and> a \<noteq> b"
    if i: "i < length (links g)" and j: "j < length (links g)" and ij: "i \<noteq> j"
      and ti: "\<not> isTop (links g1 ! i)" and tj: "\<not> isTop (links g1 ! j)"
      and ov: "set (linkSpan (links g1 ! i)) \<inter> set (linkSpan (links g1 ! j)) \<noteq> {}" for i j
  proof -
    from ov obtain k where ki: "k \<in> set (linkSpan (links g1 ! i))"
      and kj: "k \<in> set (linkSpan (links g1 ! j))" by auto
    have "placeable (L ! i)"
      using frame_resolved(1)[OF fr[unfolded L_def] i ti] linkSpan_nonempty[OF ki] by (simp add: L_def)
    then have iP: "i \<in> P" using i len by (simp add: P_def)
    have "placeable (L ! j)"
      using frame_resolved(1)[OF fr[unfolded L_def] j tj] linkSpan_nonempty[OF kj] by (simp add: L_def)
    then have jP: "j \<in> P" using j len by (simp add: P_def)
    have ov': "set (linkSpan (L ! i)) \<inter> set (linkSpan (L ! j)) \<noteq> {}"
      using ov frame_resolved(2)[OF fr[unfolded L_def] i] frame_resolved(2)[OF fr[unfolded L_def] j]
      by (simp add: L_def)
    from oc iP obtain a where a: "level (links g1 ! i) = Some a" unfolding occupied_def by blast
    from oc jP obtain b where b: "level (links g1 ! j) = Some b" unfolding occupied_def by blast
    have "level (links g1 ! i) \<noteq> level (links g1 ! j)"
      using ap iP jP ij ov' unfolding apart_def by blast
    then show ?thesis using a b by simp
  qed
  define r where "r = g1\<lparr>sticky := False\<rparr>"
  have lr: "links r = links g1" by (simp add: r_def)
  have "prepareGraph g = Some (Inr r)" using p by (simp add: r_def)
  moreover have "length (links r) = length (links g)" using len lr by simp
  moreover have "\<forall>i j. i < length (links r) \<and> j < length (links r) \<and> i \<noteq> j \<and>
           \<not> isTop (links r ! i) \<and> \<not> isTop (links r ! j) \<and>
           set (linkSpan (links r ! i)) \<inter> set (linkSpan (links r ! j)) \<noteq> {} \<longrightarrow>
        (\<exists>a b. level (links r ! i) = Some a \<and> level (links r ! j) = Some b \<and> a \<noteq> b)"
    unfolding lr
  proof (intro allI impI)
    fix i j
    assume h: "i < length (links g1) \<and> j < length (links g1) \<and> i \<noteq> j \<and>
           \<not> isTop (links g1 ! i) \<and> \<not> isTop (links g1 ! j) \<and>
           set (linkSpan (links g1 ! i)) \<inter> set (linkSpan (links g1 ! j)) \<noteq> {}"
    show "\<exists>a b. level (links g1 ! i) = Some a \<and> level (links g1 ! j) = Some b \<and> a \<noteq> b"
      using main[of i j] h len by simp
  qed
  ultimately show ?thesis by blast
qed

theorem no_collision_witness:
  "prepareGraph exampleGraph = Some (Inr exampleLayout) \<and>
   (1::nat) < length (links exampleLayout) \<and> (2::nat) < length (links exampleLayout) \<and>
   \<not> isTop (links exampleLayout ! 1) \<and> \<not> isTop (links exampleLayout ! 2) \<and>
   set (linkSpan (links exampleLayout ! 1)) \<inter> set (linkSpan (links exampleLayout ! 2)) \<noteq> {} \<and>
   level (links exampleLayout ! 1) \<noteq> level (links exampleLayout ! 2)"
proof -
  from no_collision[of exampleGraph] obtain g' where g': "prepareGraph exampleGraph = Some (Inr g')"
    and all: "\<And>i j. i < length (links g') \<and> j < length (links g') \<and> i \<noteq> j \<and>
           \<not> isTop (links g' ! i) \<and> \<not> isTop (links g' ! j) \<and>
           set (linkSpan (links g' ! i)) \<inter> set (linkSpan (links g' ! j)) \<noteq> {} \<Longrightarrow>
        (\<exists>a b. level (links g' ! i) = Some a \<and> level (links g' ! j) = Some b \<and> a \<noteq> b)"
    by blast
  have eq: "g' = exampleLayout" using g' by (simp add: prepareGraph_example)
  have hyp: "(1::nat) < length (links exampleLayout) \<and> (2::nat) < length (links exampleLayout) \<and>
     (1::nat) \<noteq> 2 \<and> \<not> isTop (links exampleLayout ! 1) \<and> \<not> isTop (links exampleLayout ! 2) \<and>
     set (linkSpan (links exampleLayout ! 1)) \<inter> set (linkSpan (links exampleLayout ! 2)) \<noteq> {}"
    by code_simp
  from all[of 1 2, unfolded eq, OF hyp] have "level (links exampleLayout ! 1) \<noteq> level (links exampleLayout ! 2)"
    by auto
  then show ?thesis using hyp prepareGraph_example by simp
qed

text \<open>
  C2.  The code tests \<^verbatim>\<open>d.rargname == ""\<close> alone, not together with \<^verbatim>\<open>d.post == "EQ"\<close>:
  a link with an empty role and post \<open>NEQ\<close> gets direction \<open>- 1\<close>, and is placed below the
  line.
\<close>

theorem empty_role_neq_direction:
  "prepareGraph (d3_graph [''1'', ''2''] [(''1'', ''2'', '''', ''NEQ'')]) =
     Some (Inr \<lparr>nodes = [\<lparr>id_node = ''1''\<rparr>, \<lparr>id_node = ''2''\<rparr>],
       links = [\<lparr>source = Some 0, target = Some 1, start = ''1'', end' = ''2'', rargname = '''',
                 post = ''NEQ'', distance = Some 1, dir = - 1, level = Some (- 1)\<rparr>],
       maxTopLevel = 0, maxBottomLevel = - 1, sticky = False\<rparr>)"
  by code_simp

text \<open>
  C3.  When the link at index \<open>i\<close> is processed in the pass for its distance (it is not
  top-level, its ends are \<open>s\<close> and \<open>t\<close>, its direction is \<open>1\<close> or \<open>- 1\<close>, and every gap
  between them has an entry), \<^verbatim>\<open>nextAvailableLevel\<close> returns \<open>m * dir\<close> for the least
  \<open>m \<ge> 1\<close> such that \<open>m * dir\<close> is free on every gap \<open>[min s t, max s t)\<close>; that level is
  stored in the link, and it is marked on every gap of the span.
\<close>

theorem minimal_free_level:
  assumes "links g ! i = d" and "\<not> isTop d" and "distance d = Some dist"
    and "source d = Some s" and "target d = Some t"
    and "dir d = 1 \<or> dir d = - 1" and "{min s t..<max s t} \<subseteq> dom lvlIdx"
  shows "\<exists>m\<ge>1. \<exists>g'.
           nextAvailableLevel (Some s) (Some t) (dir d) lvlIdx =
             Some (Inr (int m * dir d, marked [min s t..<max s t] (int m * dir d) lvlIdx)) \<and>
           levelLink dist i (g, lvlIdx) =
             Some (Inr (g', marked [min s t..<max s t] (int m * dir d) lvlIdx)) \<and>
           links g' = (links g)[i := d\<lparr>level := Some (int m * dir d)\<rparr>] \<and>
           freeOn [min s t..<max s t] (int m * dir d) lvlIdx \<and>
           (\<forall>m'. 1 \<le> m' \<and> m' < m \<longrightarrow> \<not> freeOn [min s t..<max s t] (int m' * dir d) lvlIdx)"
proof -
  have sp: "linkSpan d = [min s t..<max s t]" using assms(4,5) by (rule linkSpan_Some)
  have dom: "set (linkSpan d) \<subseteq> dom lvlIdx" using assms(7) sp by simp
  from levelLink_place[OF assms(1,2,3) dom assms(6)]
  obtain m g' where m: "1 \<le> m"
    and res: "levelLink dist i (g, lvlIdx) = Some (Inr (g', marked (linkSpan d) (int m * dir d) lvlIdx))"
    and nal: "nextAvailableLevel (source d) (target d) (dir d) lvlIdx =
            Some (Inr (int m * dir d, marked (linkSpan d) (int m * dir d) lvlIdx))"
    and lk: "links g' = (links g)[i := d\<lparr>level := Some (int m * dir d)\<rparr>]"
    and free: "freeOn (linkSpan d) (int m * dir d) lvlIdx"
    and least: "\<forall>m'. 1 \<le> m' \<and> m' < m \<longrightarrow> \<not> freeOn (linkSpan d) (int m' * dir d) lvlIdx"
    by blast
  show ?thesis using m res nal lk free least unfolding sp assms(4,5) by blast
qed

theorem minimal_free_level_witness:
  "\<not> isTop (links exampleLayout ! 4) \<and>
   distance (links exampleLayout ! 4) = Some 2 \<and> source (links exampleLayout ! 4) = Some 2 \<and>
   target (links exampleLayout ! 4) = Some 0 \<and> dir (links exampleLayout ! 4) = - 1 \<and>
   {min 2 0..<max 2 (0::nat)} \<subseteq> dom [0 \<mapsto> [- 1::int], 1 \<mapsto> [1], 2 \<mapsto> []] \<and>
   nextAvailableLevel (Some 2) (Some 0) (- 1) [0 \<mapsto> [- 1], 1 \<mapsto> [1], 2 \<mapsto> []] =
     Some (Inr (- 2, marked [0..<2] (- 2) [0 \<mapsto> [- 1], 1 \<mapsto> [1], 2 \<mapsto> []])) \<and>
   \<not> freeOn [0..<2] (- 1) [0 \<mapsto> [- 1], 1 \<mapsto> [1], 2 \<mapsto> []]"
proof -
  let ?lv = "[0 \<mapsto> [- 1::int], 1 \<mapsto> [1], 2 \<mapsto> []]"
  have h: "\<not> isTop (links exampleLayout ! 4)" "distance (links exampleLayout ! 4) = Some 2"
    "source (links exampleLayout ! 4) = Some 2" "target (links exampleLayout ! 4) = Some 0"
    "dir (links exampleLayout ! 4) = - 1"
    by code_simp+
  have dr: "dir (links exampleLayout ! 4) = 1 \<or> dir (links exampleLayout ! 4) = - 1" using h(5) by simp
  have dom: "{min 2 0..<max 2 (0::nat)} \<subseteq> dom ?lv" by auto
  from minimal_free_level[OF refl h(1,2,3,4) dr dom]
  obtain m where m: "1 \<le> m"
    and res: "nextAvailableLevel (Some 2) (Some 0) (dir (links exampleLayout ! 4)) ?lv =
             Some (Inr (int m * dir (links exampleLayout ! 4),
               marked [min 2 0..<max 2 0] (int m * dir (links exampleLayout ! 4)) ?lv))"
    and free: "freeOn [min 2 0..<max 2 0] (int m * dir (links exampleLayout ! 4)) ?lv"
    and least: "\<forall>m'. 1 \<le> m' \<and> m' < m \<longrightarrow>
        \<not> freeOn [min 2 0..<max 2 0] (int m' * dir (links exampleLayout ! 4)) ?lv"
    by blast
  have nf: "\<not> freeOn [0..<2] (- 1) ?lv" by (simp add: freeOn_def upt_rec)
  have f2: "freeOn [0..<2] (- 2) ?lv" by (simp add: freeOn_def upt_rec)
  have "m \<noteq> 1" using free nf h(5) by auto
  moreover have "\<not> 2 < m" using least[rule_format, of 2] f2 h(5) by auto
  ultimately have "m = 2" using m by simp
  then show ?thesis using res h dom nf by simp
qed



text \<open>
  C5.  A top-level link is skipped by the body of the \<^verbatim>\<open>dist\<close> loop, which leaves the
  graph and \<^verbatim>\<open>levelIdx\<close> as they are.  In the graph \<^verbatim>\<open>prepareGraph\<close> returns it is still
  top-level, has direction \<open>1\<close> and the level it came with (none for a parsed document);
  every level that is a key of a gap in the final \<^verbatim>\<open>levelIdx\<close> is the level of a link that
  is not top-level and spans that gap; and \<^verbatim>\<open>getPathSpec\<close> draws the top-level link up to
  \<open>(maxTopLevel + 1) * level_dy\<close>, with \<open>maxTopLevel\<close> as it is after the pass, which is
  higher than the lane and the path of every placed link of direction \<open>1\<close>.
\<close>

theorem top_link_outside_lanes:
  "(isTop (links h ! j) \<longrightarrow> levelLink dist j (h, lv0) = Some (Inr (h, lv0))) \<and>
   (\<exists>g' lv. prepareGraph g = Some (Inr g') \<and>
      assignLevels g = Some (Inr (g'\<lparr>sticky := sticky g\<rparr>, lv)) \<and>
      length (links g') = length (links g) \<and>
      (\<forall>i<length (links g). isTop (links g ! i) \<longrightarrow>
          isTop (links g' ! i) \<and> level (links g' ! i) = level (links g ! i) \<and>
          dir (links g' ! i) = 1 \<and>
          (target (links g' ! i) \<noteq> None \<longrightarrow>
             pathRise (links g' ! i) g' = Inr (Some ((maxTopLevel g' + 1) * level_dy)))) \<and>
      (\<forall>k\<in>dom lv. \<forall>l\<in>set (the (lv k)). \<exists>j<length (links g). \<not> isTop (links g' ! j) \<and>
          level (links g' ! j) = Some l \<and> k \<in> set (linkSpan (links g' ! j))) \<and>
      (\<forall>j<length (links g). placed (links g' ! j) \<and> dir (links g' ! j) = 1 \<longrightarrow>
          (\<exists>l. level (links g' ! j) = Some l \<and> l < maxTopLevel g' + 1 \<and>
               pathRise (links g' ! j) g' = Inr (Some (l * level_dy - 5)) \<and>
               l * level_dy - 5 < (maxTopLevel g' + 1) * level_dy)))"
proof
  show "isTop (links h ! j) \<longrightarrow> levelLink dist j (h, lv0) = Some (Inr (h, lv0))"
    using levelLink_skip[of h j dist lv0] by simp
next
  from prepareGraph_levelIdx[of g] obtain g' lv where p: "prepareGraph g = Some (Inr g')"
    and a: "assignLevels g = Some (Inr (g'\<lparr>sticky := sticky g\<rparr>, lv))"
    and len: "length (links g') = length (links g)" and nd: "nodes g' = nodes g"
    and un: "\<And>i. i < length (links g) \<Longrightarrow> \<not> placeable (resolvedLinks g ! i) \<Longrightarrow>
          links g' ! i = resolvedLinks g ! i"
    and tt: "\<And>i. i < length (links g) \<Longrightarrow> isTop (links g' ! i) = isTop (links g ! i) \<and>
         target (links g' ! i) = nodeIndex g (end' (links g ! i))"
    and occ: "\<forall>k\<in>dom lv. \<forall>l\<in>set (the (lv k)). \<exists>j<length (links g). \<not> isTop (links g' ! j) \<and>
         level (links g' ! j) = Some l \<and> k \<in> set (linkSpan (links g' ! j))"
    by blast
  from prepareGraph_facts[of g] p have
    each: "\<And>i. i < length (links g) \<Longrightarrow> placed (links g' ! i) \<Longrightarrow>
        (\<exists>m\<ge>1. level (links g' ! i) = Some (int m * dir (links g' ! i))) \<and>
        (dir (links g' ! i) = 1 \<longrightarrow> (\<forall>l. level (links g' ! i) = Some l \<longrightarrow> l \<le> maxTopLevel g'))"
    by auto
  from prepareGraph_bounds[of g] p have
    bd: "\<And>i. i < length (links g) \<Longrightarrow> \<not> isTop (links g' ! i) \<Longrightarrow>
        (\<forall>s. source (links g' ! i) = Some s \<longrightarrow> s < length (nodes g')) \<and>
        (\<forall>t. target (links g' ! i) = Some t \<longrightarrow> t < length (nodes g'))"
    unfolding nd by auto
  have tops: "\<forall>i<length (links g). isTop (links g ! i) \<longrightarrow>
          isTop (links g' ! i) \<and> level (links g' ! i) = level (links g ! i) \<and>
          dir (links g' ! i) = 1 \<and>
          (target (links g' ! i) \<noteq> None \<longrightarrow>
             pathRise (links g' ! i) g' = Inr (Some ((maxTopLevel g' + 1) * level_dy)))"
  proof (intro allI impI)
    fix i assume i: "i < length (links g)" and top: "isTop (links g ! i)"
    have rt: "isTop (resolvedLinks g ! i)" using i top by (simp add: resolvedLinks_def resolveLink_isTop)
    then have eq: "links g' ! i = resolveLink (nodeIndex g) (links g ! i)"
      using un[OF i] i by (simp add: placeable_def resolvedLinks_def)
    have t1: "isTop (links g' ! i)" using tt[OF i] top by simp
    have t2: "level (links g' ! i) = level (links g ! i)" by (simp add: eq resolveLink_fields)
    have t3: "dir (links g' ! i) = 1" using top by (simp add: eq resolveLink_fields)
    have t4: "target (links g' ! i) \<noteq> None \<longrightarrow>
             pathRise (links g' ! i) g' = Inr (Some ((maxTopLevel g' + 1) * level_dy))"
    proof
      assume "target (links g' ! i) \<noteq> None"
      then obtain t where t: "target (links g' ! i) = Some t" by auto
      then have "nodeIndex g (end' (links g ! i)) = Some t" using tt[OF i] by simp
      then have "t < length (nodes g')" using nodeIndex_bound nd by simp
      then show "pathRise (links g' ! i) g' = Inr (Some ((maxTopLevel g' + 1) * level_dy))"
        using t t1 t3 by (simp add: pathRise_def isTop_def)
    qed
    show "isTop (links g' ! i) \<and> level (links g' ! i) = level (links g ! i) \<and>
          dir (links g' ! i) = 1 \<and>
          (target (links g' ! i) \<noteq> None \<longrightarrow>
             pathRise (links g' ! i) g' = Inr (Some ((maxTopLevel g' + 1) * level_dy)))"
      using t1 t2 t3 t4 by blast
  qed
  have above: "\<forall>j<length (links g). placed (links g' ! j) \<and> dir (links g' ! j) = 1 \<longrightarrow>
          (\<exists>l. level (links g' ! j) = Some l \<and> l < maxTopLevel g' + 1 \<and>
               pathRise (links g' ! j) g' = Inr (Some (l * level_dy - 5)) \<and>
               l * level_dy - 5 < (maxTopLevel g' + 1) * level_dy)"
  proof (intro allI impI)
    fix j assume j: "j < length (links g)" and h: "placed (links g' ! j) \<and> dir (links g' ! j) = 1"
    from each[OF j] h obtain m where m: "1 \<le> m" "level (links g' ! j) = Some (int m)"
      and le: "int m \<le> maxTopLevel g'" by auto
    have nt: "\<not> isTop (links g' ! j)" using h by (simp add: placed_def)
    have pr: "pathRise (links g' ! j) g' = Inr (Some (int m * level_dy - 5))"
      using placed_pathRise[of "links g' ! j" "int m" g'] h m bd[OF j nt] by simp
    have "int m * level_dy - 5 < (maxTopLevel g' + 1) * level_dy"
      using le by (simp add: level_dy_def)
    then show "\<exists>l. level (links g' ! j) = Some l \<and> l < maxTopLevel g' + 1 \<and>
               pathRise (links g' ! j) g' = Inr (Some (l * level_dy - 5)) \<and>
               l * level_dy - 5 < (maxTopLevel g' + 1) * level_dy"
      using m(2) le pr by auto
  qed
  show "\<exists>g' lv. prepareGraph g = Some (Inr g') \<and>
      assignLevels g = Some (Inr (g'\<lparr>sticky := sticky g\<rparr>, lv)) \<and>
      length (links g') = length (links g) \<and>
      (\<forall>i<length (links g). isTop (links g ! i) \<longrightarrow>
          isTop (links g' ! i) \<and> level (links g' ! i) = level (links g ! i) \<and>
          dir (links g' ! i) = 1 \<and>
          (target (links g' ! i) \<noteq> None \<longrightarrow>
             pathRise (links g' ! i) g' = Inr (Some ((maxTopLevel g' + 1) * level_dy)))) \<and>
      (\<forall>k\<in>dom lv. \<forall>l\<in>set (the (lv k)). \<exists>j<length (links g). \<not> isTop (links g' ! j) \<and>
          level (links g' ! j) = Some l \<and> k \<in> set (linkSpan (links g' ! j))) \<and>
      (\<forall>j<length (links g). placed (links g' ! j) \<and> dir (links g' ! j) = 1 \<longrightarrow>
          (\<exists>l. level (links g' ! j) = Some l \<and> l < maxTopLevel g' + 1 \<and>
               pathRise (links g' ! j) g' = Inr (Some (l * level_dy - 5)) \<and>
               l * level_dy - 5 < (maxTopLevel g' + 1) * level_dy))"
    using p a len tops occ above by blast
qed

theorem top_link_outside_lanes_witness:
  "isTop (links exampleGraph ! 0) \<and>
   levelLink 1 0 (exampleGraph, Map.empty) = Some (Inr (exampleGraph, Map.empty)) \<and>
   prepareGraph exampleGraph = Some (Inr exampleLayout) \<and> isTop (links exampleLayout ! 0) \<and>
   level (links exampleLayout ! 0) = None \<and> target (links exampleLayout ! 0) \<noteq> None \<and>
   pathRise (links exampleLayout ! 0) exampleLayout = Inr (Some 75) \<and>
   placed (links exampleLayout ! 2) \<and> dir (links exampleLayout ! 2) = 1 \<and>
   level (links exampleLayout ! 2) = Some 2 \<and>
   pathRise (links exampleLayout ! 2) exampleLayout = Inr (Some 45)"
proof -
  have top0: "isTop (links exampleGraph ! 0)" by code_simp
  note inst = top_link_outside_lanes[of exampleGraph 0 1 Map.empty exampleGraph]
  have skip: "levelLink 1 0 (exampleGraph, Map.empty) = Some (Inr (exampleGraph, Map.empty))"
    by (rule inst[THEN conjunct1, THEN mp, OF top0])
  from inst[THEN conjunct2]
  obtain g' lv where g': "prepareGraph exampleGraph = Some (Inr g')"
    and tops: "\<And>i. i < length (links exampleGraph) \<Longrightarrow> isTop (links exampleGraph ! i) \<Longrightarrow>
          isTop (links g' ! i) \<and> level (links g' ! i) = level (links exampleGraph ! i) \<and>
          (target (links g' ! i) \<noteq> None \<longrightarrow>
             pathRise (links g' ! i) g' = Inr (Some ((maxTopLevel g' + 1) * level_dy)))"
    and above: "\<And>j. j < length (links exampleGraph) \<Longrightarrow>
          placed (links g' ! j) \<and> dir (links g' ! j) = 1 \<Longrightarrow>
          (\<exists>l. level (links g' ! j) = Some l \<and>
               pathRise (links g' ! j) g' = Inr (Some (l * level_dy - 5)))"
    by (elim exE conjE) blast
  have eq: "g' = exampleLayout" using g' by (simp add: prepareGraph_example)
  have i0: "(0::nat) < length (links exampleGraph)" "(2::nat) < length (links exampleGraph)"
    by (simp_all add: exampleGraph_def d3_graph_def)
  have lv0: "level (links exampleGraph ! 0) = None" by (simp add: exampleGraph_def d3_graph_def d3_link_def)
  have tg: "target (links exampleLayout ! 0) \<noteq> None" by (simp add: exampleLayout_def)
  have mt: "(maxTopLevel exampleLayout + 1) * level_dy = 75" by (simp add: exampleLayout_def level_dy_def)
  from tops[OF i0(1) top0, unfolded eq] lv0 tg mt
  have a: "isTop (links exampleLayout ! 0) \<and> level (links exampleLayout ! 0) = None \<and>
      pathRise (links exampleLayout ! 0) exampleLayout = Inr (Some 75)" by simp
  have pl: "placed (links exampleLayout ! 2) \<and> dir (links exampleLayout ! 2) = 1" by code_simp
  have l2: "level (links exampleLayout ! 2) = Some 2" by (simp add: exampleLayout_def)
  from above[OF i0(2), unfolded eq, OF pl] l2
  have b: "pathRise (links exampleLayout ! 2) exampleLayout = Inr (Some 45)"
    by (simp add: level_dy_def)
  show ?thesis using top0 skip prepareGraph_example a tg pl l2 b by simp
qed

text \<open>
  C6.  After the layout of any graph \<open>maxTopLevel\<close> is at least 0 and \<open>maxBottomLevel\<close> at
  most 0.  Every link that is not top-level and whose \<open>start\<close> and \<open>end\<close> both name nodes
  has direction \<open>1\<close> or \<open>- 1\<close> and a level: in \<open>[1, maxTopLevel]\<close> when its direction is
  \<open>1\<close>, in \<open>[maxBottomLevel, - 1]\<close> when it is \<open>- 1\<close>, and never 0.  Every other link (a
  top-level link, whose direction is \<open>1\<close>, or a link with an end that names no node) keeps
  the level it came with, and a link built by \<^verbatim>\<open>parseXmlDMRS\<close> comes with none.
\<close>

theorem level_ranges:
  "(\<forall>d\<in>set (links (d3_graph nodeids ls)). level d = None) \<and>
   (\<exists>g'. prepareGraph g = Some (Inr g') \<and> length (links g') = length (links g) \<and>
      0 \<le> maxTopLevel g' \<and> maxBottomLevel g' \<le> 0 \<and>
      (\<forall>i<length (links g).
         \<not> isTop (links g ! i) \<and> namesNode g (start (links g ! i)) \<and>
         namesNode g (end' (links g ! i)) \<longrightarrow>
           (dir (links g' ! i) = 1 \<or> dir (links g' ! i) = - 1) \<and>
           (\<exists>l. level (links g' ! i) = Some l \<and> l \<noteq> 0 \<and>
               (dir (links g' ! i) = 1 \<longrightarrow> 1 \<le> l \<and> l \<le> maxTopLevel g') \<and>
               (dir (links g' ! i) = - 1 \<longrightarrow> maxBottomLevel g' \<le> l \<and> l \<le> - 1))) \<and>
      (\<forall>i<length (links g).
         isTop (links g ! i) \<or> \<not> namesNode g (start (links g ! i)) \<or>
         \<not> namesNode g (end' (links g ! i)) \<longrightarrow>
           level (links g' ! i) = level (links g ! i) \<and>
           (isTop (links g ! i) \<longrightarrow> dir (links g' ! i) = 1)))"
proof
  show "\<forall>d\<in>set (links (d3_graph nodeids ls)). level d = None"
    using d3_graph_level by blast
next
  from prepareGraph_input[of g] obtain g' where p: "prepareGraph g = Some (Inr g')"
    and pin: "\<And>i. i < length (links g) \<Longrightarrow> placed (links g' ! i) \<longleftrightarrow>
         \<not> isTop (links g ! i) \<and> namesNode g (start (links g ! i)) \<and> namesNode g (end' (links g ! i))"
    and un: "\<And>i. i < length (links g) \<Longrightarrow> \<not> placed (links g' ! i) \<Longrightarrow>
         links g' ! i = resolveLink (nodeIndex g) (links g ! i)"
    by (elim exE conjE) blast
  from prepareGraph_facts[of g] p have len: "length (links g') = length (links g)"
    and mx: "0 \<le> maxTopLevel g'" "maxBottomLevel g' \<le> 0"
    and each: "\<And>i. i < length (links g) \<Longrightarrow> placed (links g' ! i) \<Longrightarrow>
        (\<exists>m\<ge>1. level (links g' ! i) = Some (int m * dir (links g' ! i))) \<and>
        (dir (links g' ! i) = 1 \<or> dir (links g' ! i) = - 1) \<and>
        (dir (links g' ! i) = 1 \<longrightarrow> (\<forall>l. level (links g' ! i) = Some l \<longrightarrow> l \<le> maxTopLevel g')) \<and>
        (dir (links g' ! i) = - 1 \<longrightarrow> (\<forall>l. level (links g' ! i) = Some l \<longrightarrow> maxBottomLevel g' \<le> l))"
    by auto
  have a: "\<forall>i<length (links g).
         \<not> isTop (links g ! i) \<and> namesNode g (start (links g ! i)) \<and>
         namesNode g (end' (links g ! i)) \<longrightarrow>
           (dir (links g' ! i) = 1 \<or> dir (links g' ! i) = - 1) \<and>
           (\<exists>l. level (links g' ! i) = Some l \<and> l \<noteq> 0 \<and>
               (dir (links g' ! i) = 1 \<longrightarrow> 1 \<le> l \<and> l \<le> maxTopLevel g') \<and>
               (dir (links g' ! i) = - 1 \<longrightarrow> maxBottomLevel g' \<le> l \<and> l \<le> - 1))"
  proof (rule allI, rule impI, rule impI)
    fix i assume i: "i < length (links g)"
      and h: "\<not> isTop (links g ! i) \<and> namesNode g (start (links g ! i)) \<and>
         namesNode g (end' (links g ! i))"
    define d where "d = links g' ! i"
    have pl: "placed (links g' ! i)" using pin[OF i] h by simp
    from each[OF i pl] obtain m where m: "1 \<le> m" "level d = Some (int m * dir d)"
      and dr: "dir d = 1 \<or> dir d = - 1"
      and up: "dir d = 1 \<longrightarrow> int m * dir d \<le> maxTopLevel g'"
      and lo: "dir d = - 1 \<longrightarrow> maxBottomLevel g' \<le> int m * dir d"
      unfolding d_def by auto
    have "int m * dir d \<noteq> 0" using m(1) dr by auto
    moreover have "dir d = 1 \<longrightarrow> 1 \<le> int m * dir d \<and> int m * dir d \<le> maxTopLevel g'"
      using m(1) up by auto
    moreover have "dir d = - 1 \<longrightarrow> maxBottomLevel g' \<le> int m * dir d \<and> int m * dir d \<le> - 1"
      using m(1) lo by auto
    ultimately have "(dir d = 1 \<or> dir d = - 1) \<and>
        (\<exists>l. level d = Some l \<and> l \<noteq> 0 \<and>
             (dir d = 1 \<longrightarrow> 1 \<le> l \<and> l \<le> maxTopLevel g') \<and>
             (dir d = - 1 \<longrightarrow> maxBottomLevel g' \<le> l \<and> l \<le> - 1))"
      using dr m(2) by blast
    then show "(dir (links g' ! i) = 1 \<or> dir (links g' ! i) = - 1) \<and>
           (\<exists>l. level (links g' ! i) = Some l \<and> l \<noteq> 0 \<and>
               (dir (links g' ! i) = 1 \<longrightarrow> 1 \<le> l \<and> l \<le> maxTopLevel g') \<and>
               (dir (links g' ! i) = - 1 \<longrightarrow> maxBottomLevel g' \<le> l \<and> l \<le> - 1))"
      unfolding d_def .
  qed
  have b: "\<forall>i<length (links g).
         isTop (links g ! i) \<or> \<not> namesNode g (start (links g ! i)) \<or>
         \<not> namesNode g (end' (links g ! i)) \<longrightarrow>
           level (links g' ! i) = level (links g ! i) \<and>
           (isTop (links g ! i) \<longrightarrow> dir (links g' ! i) = 1)"
  proof (rule allI, rule impI, rule impI)
    fix i assume i: "i < length (links g)"
      and h: "isTop (links g ! i) \<or> \<not> namesNode g (start (links g ! i)) \<or>
         \<not> namesNode g (end' (links g ! i))"
    have "\<not> placed (links g' ! i)" using pin[OF i] h by blast
    from un[OF i this] have eq: "links g' ! i = resolveLink (nodeIndex g) (links g ! i)" .
    show "level (links g' ! i) = level (links g ! i) \<and>
           (isTop (links g ! i) \<longrightarrow> dir (links g' ! i) = 1)"
      by (simp add: eq resolveLink_fields)
  qed
  show "\<exists>g'. prepareGraph g = Some (Inr g') \<and> length (links g') = length (links g) \<and>
      0 \<le> maxTopLevel g' \<and> maxBottomLevel g' \<le> 0 \<and>
      (\<forall>i<length (links g).
         \<not> isTop (links g ! i) \<and> namesNode g (start (links g ! i)) \<and>
         namesNode g (end' (links g ! i)) \<longrightarrow>
           (dir (links g' ! i) = 1 \<or> dir (links g' ! i) = - 1) \<and>
           (\<exists>l. level (links g' ! i) = Some l \<and> l \<noteq> 0 \<and>
               (dir (links g' ! i) = 1 \<longrightarrow> 1 \<le> l \<and> l \<le> maxTopLevel g') \<and>
               (dir (links g' ! i) = - 1 \<longrightarrow> maxBottomLevel g' \<le> l \<and> l \<le> - 1))) \<and>
      (\<forall>i<length (links g).
         isTop (links g ! i) \<or> \<not> namesNode g (start (links g ! i)) \<or>
         \<not> namesNode g (end' (links g ! i)) \<longrightarrow>
           level (links g' ! i) = level (links g ! i) \<and>
           (isTop (links g ! i) \<longrightarrow> dir (links g' ! i) = 1))"
    using p len mx a b by blast
qed

theorem level_ranges_witness:
  "prepareGraph exampleGraph = Some (Inr exampleLayout) \<and>
   (4::nat) < length (links exampleGraph) \<and> \<not> isTop (links exampleGraph ! 4) \<and>
   namesNode exampleGraph (start (links exampleGraph ! 4)) \<and>
   namesNode exampleGraph (end' (links exampleGraph ! 4)) \<and>
   dir (links exampleLayout ! 4) = - 1 \<and> level (links exampleLayout ! 4) = Some (- 2) \<and>
   maxBottomLevel exampleLayout \<le> - 2 \<and> (- 2::int) \<le> - 1 \<and> 0 \<le> maxTopLevel exampleLayout \<and>
   (0::nat) < length (links exampleGraph) \<and> isTop (links exampleGraph ! 0) \<and>
   dir (links exampleLayout ! 0) = 1 \<and> level (links exampleLayout ! 0) = None \<and>
   (5::nat) < length (links exampleGraph) \<and>
   \<not> namesNode exampleGraph (end' (links exampleGraph ! 5)) \<and> level (links exampleLayout ! 5) = None"
proof -
  define doc where "doc = [(''0'', ''2'', [], ''H''), (''1'', ''2'', ''ARG1'', ''NEQ''),
      (''1'', ''2'', ''ARG2'', ''NEQ''), (''2'', ''3'', [], ''EQ''), (''3'', ''1'', ''RSTR'', ''H''),
      (''1'', ''9'', ''ARG3'', ''NEQ'')]"
  note inst = level_ranges[of "[''1'', ''2'', ''3'']" doc exampleGraph]
  have lk: "exampleGraph = d3_graph [''1'', ''2'', ''3''] doc"
    by (simp add: exampleGraph_def doc_def)
  from inst[THEN conjunct1] have none: "\<And>d. d \<in> set (links exampleGraph) \<Longrightarrow> level d = None"
    unfolding lk by blast
  from inst[THEN conjunct2] obtain g' where g': "prepareGraph exampleGraph = Some (Inr g')"
    and top: "0 \<le> maxTopLevel g'"
    and all: "\<And>i. i < length (links exampleGraph) \<Longrightarrow>
         \<not> isTop (links exampleGraph ! i) \<and> namesNode exampleGraph (start (links exampleGraph ! i)) \<and>
         namesNode exampleGraph (end' (links exampleGraph ! i)) \<Longrightarrow>
           (\<exists>l. level (links g' ! i) = Some l \<and> l \<noteq> 0 \<and>
               (dir (links g' ! i) = 1 \<longrightarrow> 1 \<le> l \<and> l \<le> maxTopLevel g') \<and>
               (dir (links g' ! i) = - 1 \<longrightarrow> maxBottomLevel g' \<le> l \<and> l \<le> - 1))"
    and rest: "\<And>i. i < length (links exampleGraph) \<Longrightarrow>
         isTop (links exampleGraph ! i) \<or> \<not> namesNode exampleGraph (start (links exampleGraph ! i)) \<or>
         \<not> namesNode exampleGraph (end' (links exampleGraph ! i)) \<Longrightarrow>
           level (links g' ! i) = level (links exampleGraph ! i) \<and>
           (isTop (links exampleGraph ! i) \<longrightarrow> dir (links g' ! i) = 1)"
    by (elim exE conjE) blast
  have eq: "g' = exampleLayout" using g' by (simp add: prepareGraph_example)
  have i: "(4::nat) < length (links exampleGraph)" "(0::nat) < length (links exampleGraph)"
    "(5::nat) < length (links exampleGraph)"
    by (simp_all add: exampleGraph_def d3_graph_def)
  have h4: "\<not> isTop (links exampleGraph ! 4) \<and> namesNode exampleGraph (start (links exampleGraph ! 4)) \<and>
      namesNode exampleGraph (end' (links exampleGraph ! 4))" by code_simp
  have dl: "dir (links exampleLayout ! 4) = - 1" "level (links exampleLayout ! 4) = Some (- 2)"
    by (simp_all add: exampleLayout_def)
  from all[OF i(1) h4, unfolded eq] dl
  have r4: "maxBottomLevel exampleLayout \<le> - 2 \<and> (- 2::int) \<le> - 1" by auto
  have t0: "isTop (links exampleGraph ! 0)" by code_simp
  have n0: "level (links exampleGraph ! 0) = None" "level (links exampleGraph ! 5) = None"
    using none i by simp_all
  from rest[OF i(2), unfolded eq] t0 n0
  have r0: "dir (links exampleLayout ! 0) = 1 \<and> level (links exampleLayout ! 0) = None" by simp
  have h5: "\<not> namesNode exampleGraph (end' (links exampleGraph ! 5))" by code_simp
  from rest[OF i(3), unfolded eq] h5 n0
  have r5: "level (links exampleLayout ! 5) = None" by simp
  show ?thesis using prepareGraph_example i h4 dl r4 top[unfolded eq] t0 r0 h5 r5 by simp
qed

text \<open>
  The sentence as the specification has it (every link of direction \<open>1\<close> has a level in
  \<open>[1, maxTopLevel]\<close>) fails on a document with one node and a top-level link to it: the
  link has direction \<open>1\<close> and no level, and \<open>maxTopLevel\<close> is 0.
\<close>

theorem level_ranges_counterexample:
  "prepareGraph (d3_graph [''1''] [(''0'', ''1'', '''', ''H'')]) =
     Some (Inr \<lparr>nodes = [\<lparr>id_node = ''1''\<rparr>],
       links = [\<lparr>source = None, target = Some 0, start = ''0'', end' = ''1'', rargname = '''',
                 post = ''H'', distance = None, dir = 1, level = None\<rparr>],
       maxTopLevel = 0, maxBottomLevel = 0, sticky = False\<rparr>)"
  by code_simp

text \<open>
  C7.  Neither the parser nor \<^verbatim>\<open>prepareGraph\<close> checks that the ends of a link name nodes,
  and there is no error for it: \<^verbatim>\<open>prepareGraph\<close> returns normally on every graph.  A link
  that is not top-level and whose \<open>start\<close> or \<open>end\<close> names no node stays in the graph with
  its identifiers; it has no distance, crosses no gap and keeps the level it came with,
  and a link built by \<^verbatim>\<open>parseXmlDMRS\<close> comes with none.  No lane is marked for it: the
  body of the \<^verbatim>\<open>dist\<close> loop leaves the graph and \<^verbatim>\<open>levelIdx\<close> as they are on a link
  without a distance, and every level that is a key of a gap in the final \<^verbatim>\<open>levelIdx\<close> is
  the level of a link that is not top-level, has two ends that name nodes and spans
  that gap.  \<^verbatim>\<open>getPathSpec\<close> raises a \<^verbatim>\<open>TypeError\<close> on the link.
\<close>

theorem missing_reference_unreported:
  "(distance (links h ! j) = None \<longrightarrow> levelLink dist j (h, lv0) = Some (Inr (h, lv0))) \<and>
   (\<forall>d\<in>set (links (d3_graph nodeids ls)). level d = None) \<and>
   (\<exists>g' lv. prepareGraph g = Some (Inr g') \<and>
      assignLevels g = Some (Inr (g'\<lparr>sticky := sticky g\<rparr>, lv)) \<and>
      length (links g') = length (links g) \<and>
      (\<forall>i<length (links g).
         \<not> isTop (links g ! i) \<and>
         (\<not> namesNode g (start (links g ! i)) \<or> \<not> namesNode g (end' (links g ! i))) \<longrightarrow>
           start (links g' ! i) = start (links g ! i) \<and> end' (links g' ! i) = end' (links g ! i) \<and>
           distance (links g' ! i) = None \<and> linkSpan (links g' ! i) = [] \<and>
           level (links g' ! i) = level (links g ! i) \<and>
           pathRise (links g' ! i) g' = Inl TypeError) \<and>
      (\<forall>k\<in>dom lv. \<forall>l\<in>set (the (lv k)). \<exists>j<length (links g).
          \<not> isTop (links g ! j) \<and> namesNode g (start (links g ! j)) \<and>
          namesNode g (end' (links g ! j)) \<and>
          level (links g' ! j) = Some l \<and> k \<in> set (linkSpan (links g' ! j))))"
proof (rule conjI)
  show "distance (links h ! j) = None \<longrightarrow> levelLink dist j (h, lv0) = Some (Inr (h, lv0))"
    using levelLink_skip[of h j dist lv0] by simp
next
  have parsed: "\<forall>d\<in>set (links (d3_graph nodeids ls)). level d = None"
    using d3_graph_level by blast
  from prepareGraph_input[of g] obtain g' lv where p: "prepareGraph g = Some (Inr g')"
    and a: "assignLevels g = Some (Inr (g'\<lparr>sticky := sticky g\<rparr>, lv))"
    and pin: "\<And>i. i < length (links g) \<Longrightarrow> placed (links g' ! i) \<longleftrightarrow>
         \<not> isTop (links g ! i) \<and> namesNode g (start (links g ! i)) \<and> namesNode g (end' (links g ! i))"
    and un: "\<And>i. i < length (links g) \<Longrightarrow> \<not> placed (links g' ! i) \<Longrightarrow>
         links g' ! i = resolveLink (nodeIndex g) (links g ! i)"
    and occ: "\<forall>k\<in>dom lv. \<forall>l\<in>set (the (lv k)). \<exists>j<length (links g). placed (links g' ! j) \<and>
         level (links g' ! j) = Some l \<and> k \<in> set (linkSpan (links g' ! j))"
    by (elim exE conjE) blast
  from prepareGraph_facts[of g] p have len: "length (links g') = length (links g)"
    and nd: "nodes g' = nodes g"
    by auto
  from prepareGraph_bounds[of g] p have
    bd: "\<And>i. i < length (links g) \<Longrightarrow> \<not> isTop (links g' ! i) \<Longrightarrow>
        (\<forall>s. source (links g' ! i) = Some s \<longrightarrow> s < length (nodes g')) \<and>
        (\<forall>t. target (links g' ! i) = Some t \<longrightarrow> t < length (nodes g'))"
    unfolding nd by auto
  have c1: "\<forall>i<length (links g).
         \<not> isTop (links g ! i) \<and>
         (\<not> namesNode g (start (links g ! i)) \<or> \<not> namesNode g (end' (links g ! i))) \<longrightarrow>
           start (links g' ! i) = start (links g ! i) \<and> end' (links g' ! i) = end' (links g ! i) \<and>
           distance (links g' ! i) = None \<and> linkSpan (links g' ! i) = [] \<and>
           level (links g' ! i) = level (links g ! i) \<and>
           pathRise (links g' ! i) g' = Inl TypeError"
  proof (rule allI, rule impI, rule impI)
    fix i assume i: "i < length (links g)"
      and h: "\<not> isTop (links g ! i) \<and>
         (\<not> namesNode g (start (links g ! i)) \<or> \<not> namesNode g (end' (links g ! i)))"
    define d where "d = links g ! i"
    have nt: "\<not> isTop d" using h by (simp add: d_def)
    have miss: "nodeIndex g (start d) = None \<or> nodeIndex g (end' d) = None"
      using h by (simp add: nodeIndex_None d_def)
    have "\<not> placed (links g' ! i)" using pin[OF i] h by blast
    from un[OF i this] have eq: "links g' ! i = resolveLink (nodeIndex g) d" by (simp add: d_def)
    have dn: "distance (links g' ! i) = None"
      using miss nt by (auto simp: eq resolveLink_fields absDiff_def split: option.splits)
    have st: "source (links g' ! i) = None \<or> target (links g' ! i) = None"
      using miss nt by (auto simp: eq resolveLink_fields)
    have sp: "linkSpan (links g' ! i) = []" using st by (rule linkSpan_None)
    have nt': "\<not> isTop (links g' ! i)" using nt by (simp add: eq resolveLink_isTop)
    have "pathRise (links g' ! i) g' = Inl TypeError"
      using st nt' bd[OF i nt']
      by (cases "target (links g' ! i)") (auto simp: pathRise_def isTop_def)
    then show "start (links g' ! i) = start (links g ! i) \<and> end' (links g' ! i) = end' (links g ! i) \<and>
           distance (links g' ! i) = None \<and> linkSpan (links g' ! i) = [] \<and>
           level (links g' ! i) = level (links g ! i) \<and>
           pathRise (links g' ! i) g' = Inl TypeError"
      using dn sp by (simp add: eq resolveLink_fields d_def)
  qed
  have c2: "\<forall>k\<in>dom lv. \<forall>l\<in>set (the (lv k)). \<exists>j<length (links g).
          \<not> isTop (links g ! j) \<and> namesNode g (start (links g ! j)) \<and>
          namesNode g (end' (links g ! j)) \<and>
          level (links g' ! j) = Some l \<and> k \<in> set (linkSpan (links g' ! j))"
  proof (intro ballI)
    fix k l assume "k \<in> dom lv" "l \<in> set (the (lv k))"
    with occ obtain j where j: "j < length (links g)" "placed (links g' ! j)"
      "level (links g' ! j) = Some l" "k \<in> set (linkSpan (links g' ! j))"
      by blast
    from pin[OF j(1)] j(2) have "\<not> isTop (links g ! j) \<and> namesNode g (start (links g ! j)) \<and>
          namesNode g (end' (links g ! j))" by simp
    then show "\<exists>j<length (links g).
          \<not> isTop (links g ! j) \<and> namesNode g (start (links g ! j)) \<and>
          namesNode g (end' (links g ! j)) \<and>
          level (links g' ! j) = Some l \<and> k \<in> set (linkSpan (links g' ! j))"
      using j by blast
  qed
  show "(\<forall>d\<in>set (links (d3_graph nodeids ls)). level d = None) \<and>
   (\<exists>g' lv. prepareGraph g = Some (Inr g') \<and>
      assignLevels g = Some (Inr (g'\<lparr>sticky := sticky g\<rparr>, lv)) \<and>
      length (links g') = length (links g) \<and>
      (\<forall>i<length (links g).
         \<not> isTop (links g ! i) \<and>
         (\<not> namesNode g (start (links g ! i)) \<or> \<not> namesNode g (end' (links g ! i))) \<longrightarrow>
           start (links g' ! i) = start (links g ! i) \<and> end' (links g' ! i) = end' (links g ! i) \<and>
           distance (links g' ! i) = None \<and> linkSpan (links g' ! i) = [] \<and>
           level (links g' ! i) = level (links g ! i) \<and>
           pathRise (links g' ! i) g' = Inl TypeError) \<and>
      (\<forall>k\<in>dom lv. \<forall>l\<in>set (the (lv k)). \<exists>j<length (links g).
          \<not> isTop (links g ! j) \<and> namesNode g (start (links g ! j)) \<and>
          namesNode g (end' (links g ! j)) \<and>
          level (links g' ! j) = Some l \<and> k \<in> set (linkSpan (links g' ! j))))"
    using parsed p a len c1 c2 by blast
qed

theorem missing_reference_unreported_witness:
  "prepareGraph exampleGraph = Some (Inr exampleLayout) \<and> (5::nat) < length (links exampleGraph) \<and>
   \<not> isTop (links exampleGraph ! 5) \<and> \<not> namesNode exampleGraph (end' (links exampleGraph ! 5)) \<and>
   start (links exampleLayout ! 5) = ''1'' \<and> end' (links exampleLayout ! 5) = ''9'' \<and>
   distance (links exampleLayout ! 5) = None \<and> linkSpan (links exampleLayout ! 5) = [] \<and>
   level (links exampleLayout ! 5) = None \<and>
   pathRise (links exampleLayout ! 5) exampleLayout = Inl TypeError \<and>
   levelLink 1 5 (exampleLayout, emptyLevels 3) = Some (Inr (exampleLayout, emptyLevels 3)) \<and>
   (\<exists>lv. assignLevels exampleGraph = Some (Inr (exampleLayout, lv)) \<and> lv 0 = Some [- 2, 2, 1] \<and>
      (\<exists>j<length (links exampleGraph). \<not> isTop (links exampleGraph ! j) \<and>
          namesNode exampleGraph (start (links exampleGraph ! j)) \<and>
          namesNode exampleGraph (end' (links exampleGraph ! j)) \<and>
          level (links exampleLayout ! j) = Some 2 \<and> 0 \<in> set (linkSpan (links exampleLayout ! j))))"
proof -
  define doc where "doc = [(''0'', ''2'', [], ''H''), (''1'', ''2'', ''ARG1'', ''NEQ''),
      (''1'', ''2'', ''ARG2'', ''NEQ''), (''2'', ''3'', [], ''EQ''), (''3'', ''1'', ''RSTR'', ''H''),
      (''1'', ''9'', ''ARG3'', ''NEQ'')]"
  note inst = missing_reference_unreported[of exampleLayout 5 1 "emptyLevels 3"
      "[''1'', ''2'', ''3'']" doc exampleGraph]
  have lk: "exampleGraph = d3_graph [''1'', ''2'', ''3''] doc"
    by (simp add: exampleGraph_def doc_def)
  have dn: "distance (links exampleLayout ! 5) = None" by (simp add: exampleLayout_def)
  have skip: "levelLink 1 5 (exampleLayout, emptyLevels 3) = Some (Inr (exampleLayout, emptyLevels 3))"
    by (rule inst[THEN conjunct1, THEN mp, OF dn])
  from inst[THEN conjunct2, THEN conjunct1]
  have none: "\<And>d. d \<in> set (links exampleGraph) \<Longrightarrow> level d = None"
    unfolding lk by blast
  from inst[THEN conjunct2, THEN conjunct2] obtain g' lv
    where g': "prepareGraph exampleGraph = Some (Inr g')"
      and a: "assignLevels exampleGraph = Some (Inr (g'\<lparr>sticky := sticky exampleGraph\<rparr>, lv))"
      and all: "\<And>i. i < length (links exampleGraph) \<Longrightarrow>
         \<not> isTop (links exampleGraph ! i) \<and>
         (\<not> namesNode exampleGraph (start (links exampleGraph ! i)) \<or>
          \<not> namesNode exampleGraph (end' (links exampleGraph ! i))) \<Longrightarrow>
           start (links g' ! i) = start (links exampleGraph ! i) \<and>
           end' (links g' ! i) = end' (links exampleGraph ! i) \<and>
           distance (links g' ! i) = None \<and> linkSpan (links g' ! i) = [] \<and>
           level (links g' ! i) = level (links exampleGraph ! i) \<and>
           pathRise (links g' ! i) g' = Inl TypeError"
      and occ: "\<And>k l. k \<in> dom lv \<Longrightarrow> l \<in> set (the (lv k)) \<Longrightarrow> \<exists>j<length (links exampleGraph).
          \<not> isTop (links exampleGraph ! j) \<and> namesNode exampleGraph (start (links exampleGraph ! j)) \<and>
          namesNode exampleGraph (end' (links exampleGraph ! j)) \<and>
          level (links g' ! j) = Some l \<and> k \<in> set (linkSpan (links g' ! j))"
    by (elim exE conjE) blast
  have eq: "g' = exampleLayout" using g' by (simp add: prepareGraph_example)
  have sk: "exampleLayout\<lparr>sticky := sticky exampleGraph\<rparr> = exampleLayout"
    by (simp add: exampleLayout_def exampleGraph_def d3_graph_def)
  have a': "assignLevels exampleGraph = Some (Inr (exampleLayout, lv))" using a by (simp add: eq sk)
  have lv0: "lv 0 = Some [- 2, 2, 1]" using assignLevels_example by (simp add: a')
  have i: "(5::nat) < length (links exampleGraph)" by (simp add: exampleGraph_def d3_graph_def)
  have h5: "\<not> isTop (links exampleGraph ! 5) \<and>
      (\<not> namesNode exampleGraph (start (links exampleGraph ! 5)) \<or>
       \<not> namesNode exampleGraph (end' (links exampleGraph ! 5)))" by code_simp
  have en: "\<not> namesNode exampleGraph (end' (links exampleGraph ! 5))" by code_simp
  have se: "start (links exampleGraph ! 5) = ''1''" "end' (links exampleGraph ! 5) = ''9''"
    by (simp_all add: exampleGraph_def d3_graph_def d3_link_def)
  have n5: "level (links exampleGraph ! 5) = None" using none i by simp
  from all[OF i h5, unfolded eq] se n5
  have r5: "start (links exampleLayout ! 5) = ''1'' \<and> end' (links exampleLayout ! 5) = ''9'' \<and>
      linkSpan (links exampleLayout ! 5) = [] \<and> level (links exampleLayout ! 5) = None \<and>
      pathRise (links exampleLayout ! 5) exampleLayout = Inl TypeError"
    by simp
  have "0 \<in> dom lv" "2 \<in> set (the (lv 0))" using lv0 by auto
  from occ[OF this, unfolded eq]
  have r0: "\<exists>j<length (links exampleGraph). \<not> isTop (links exampleGraph ! j) \<and>
          namesNode exampleGraph (start (links exampleGraph ! j)) \<and>
          namesNode exampleGraph (end' (links exampleGraph ! j)) \<and>
          level (links exampleLayout ! j) = Some 2 \<and> 0 \<in> set (linkSpan (links exampleLayout ! j))" .
  show ?thesis using prepareGraph_example i h5 en r5 dn skip a' lv0 r0 by blast
qed

text \<open>
  The sentence as the specification has it (the missing reference is reported as an error)
  fails on a document with one node and one link to an identifier that names no node:
  the call returns the graph, with the link in it and no level.
\<close>

theorem missing_reference_counterexample:
  "prepareGraph (d3_graph [''1''] [(''1'', ''9'', ''ARG1'', ''NEQ'')]) =
     Some (Inr \<lparr>nodes = [\<lparr>id_node = ''1''\<rparr>],
       links = [\<lparr>source = Some 0, target = None, start = ''1'', end' = ''9'', rargname = ''ARG1'',
                 post = ''NEQ'', distance = None, dir = 1, level = None\<rparr>],
       maxTopLevel = 0, maxBottomLevel = 0, sticky = False\<rparr>)"
  by code_simp

text \<open>
  C8.  The level search returns a level whenever the direction is \<open>1\<close> or \<open>- 1\<close> and
  every gap between the two node indices has an entry in \<^verbatim>\<open>levelIdx\<close>; and \<^verbatim>\<open>prepareGraph\<close>
  returns a graph, without an exception, on every input.  (Both are functions: the result
  is determined by the arguments.  With direction 0 the search does not return, see
  \<open>levelSearch_zero_direction\<close>.)
\<close>

theorem layout_terminates:
  "(\<exists>g'. prepareGraph g = Some (Inr g')) \<and>
   ((dr = 1 \<or> dr = - 1) \<and> {min s t..<max s t} \<subseteq> dom lvlIdx \<longrightarrow>
      (\<exists>l lvlIdx'. nextAvailableLevel (Some s) (Some t) dr lvlIdx = Some (Inr (l, lvlIdx'))))"
proof
  show "\<exists>g'. prepareGraph g = Some (Inr g')" using prepareGraph_layout[of g] by blast
  show "(dr = 1 \<or> dr = - 1) \<and> {min s t..<max s t} \<subseteq> dom lvlIdx \<longrightarrow>
      (\<exists>l lvlIdx'. nextAvailableLevel (Some s) (Some t) dr lvlIdx = Some (Inr (l, lvlIdx')))"
  proof
    assume h: "(dr = 1 \<or> dr = - 1) \<and> {min s t..<max s t} \<subseteq> dom lvlIdx"
    define d :: link where "d = \<lparr>source = Some s, target = Some t, start = [], end' = [],
      rargname = [], post = [], distance = None, dir = dr, level = None\<rparr>"
    have sp: "linkSpan d = [min s t..<max s t]" by (rule linkSpan_Some) (simp_all add: d_def)
    have "set (linkSpan d) \<subseteq> dom lvlIdx" using h sp by simp
    from levelSearch_total[OF this, of dr] h
    obtain m where "levelSearch (linkSpan d) dr dr lvlIdx =
        Some (Inr (int m * dr, marked (linkSpan d) (int m * dr) lvlIdx))" by blast
    moreover have "nextAvailableLevel (Some s) (Some t) dr lvlIdx = levelSearch (linkSpan d) dr dr lvlIdx"
      using nextAvailableLevel_linkSpan[of d dr lvlIdx] by (simp add: d_def)
    ultimately show "\<exists>l lvlIdx'. nextAvailableLevel (Some s) (Some t) dr lvlIdx = Some (Inr (l, lvlIdx'))"
      by simp
  qed
qed

theorem layout_terminates_witness:
  "prepareGraph exampleGraph = Some (Inr exampleLayout) \<and>
   {min 2 0..<max 2 (0::nat)} \<subseteq> dom [0 \<mapsto> [1::int], 1 \<mapsto> [2], 2 \<mapsto> []] \<and>
   nextAvailableLevel (Some 2) (Some 0) 1 [0 \<mapsto> [1], 1 \<mapsto> [2], 2 \<mapsto> []] =
     Some (Inr (3, [0 \<mapsto> [3, 1], 1 \<mapsto> [3, 2], 2 \<mapsto> []]))"
proof -
  have h: "((1::int) = 1 \<or> (1::int) = - 1) \<and>
      {min 2 0..<max 2 (0::nat)} \<subseteq> dom [0 \<mapsto> [1::int], 1 \<mapsto> [2], 2 \<mapsto> []]"
    by auto
  from layout_terminates[of exampleGraph 1 2 0 "[0 \<mapsto> [1], 1 \<mapsto> [2], 2 \<mapsto> []]"] h
  obtain l lvlIdx' where
    "nextAvailableLevel (Some 2) (Some 0) 1 [0 \<mapsto> [1], 1 \<mapsto> [2], 2 \<mapsto> []] = Some (Inr (l, lvlIdx'))"
    by blast
  moreover have "nextAvailableLevel (Some 2) (Some 0) 1 [0 \<mapsto> [1], 1 \<mapsto> [2], 2 \<mapsto> []] =
     Some (Inr (3, [0 \<mapsto> [3, 1], 1 \<mapsto> [3, 2], 2 \<mapsto> []]))"
    by (simp add: nextAvailableLevel_def jsGreater_def gaps_def levelSearch.simps upt_rec fun_upd_twist)
  ultimately show ?thesis using h prepareGraph_example by simp
qed

text \<open>
  C9.  For a selected node \<open>nid\<close> the label-set \<^verbatim>\<open>updateHighlights\<close> computes is the set of
  identifiers reachable from \<open>nid\<close> by one or more EQ links taken in either direction
  (the loop always ends).  With an \<open>ARG1\<close> link from \<open>x\<close> to \<open>y\<close> whose post is none of
  \<open>EQ\<close>, \<open>H\<close>, \<open>HEQ\<close> and an \<open>EQ\<close> link from \<open>z\<close> to \<open>x\<close>, selecting \<open>x\<close> gives the
  outbound set \<open>{y}\<close>, the label-set \<open>{x, z}\<close> and the empty scope set.
\<close>

theorem label_set_closure:
  "(case updateHighlights nid ls of (outs, ins, labelset, scopes) \<Rightarrow>
      labelset = labelClosure nid ls) \<and>
   (x \<noteq> z \<and> p \<noteq> ''EQ'' \<and> p \<noteq> ''H'' \<and> p \<noteq> ''HEQ'' \<longrightarrow>
      (case updateHighlights x
              [a\<lparr>start := x, end' := y, rargname := ''ARG1'', post := p\<rparr>,
               b\<lparr>start := z, end' := x, rargname := r, post := ''EQ''\<rparr>] of
         (outs, ins, labelset, scopes) \<Rightarrow> outs = {y} \<and> labelset = {x, z} \<and> scopes = {}))"
proof
  have "expandLabels ls (seedLabels nid ls) = labelClosure nid ls"
    by (rule expandLabels_closure) (simp_all add: seed_in_closure)
  then show "case updateHighlights nid ls of (outs, ins, labelset, scopes) \<Rightarrow>
      labelset = labelClosure nid ls"
    by (simp add: updateHighlights_def)
next
  show "x \<noteq> z \<and> p \<noteq> ''EQ'' \<and> p \<noteq> ''H'' \<and> p \<noteq> ''HEQ'' \<longrightarrow>
      (case updateHighlights x
              [a\<lparr>start := x, end' := y, rargname := ''ARG1'', post := p\<rparr>,
               b\<lparr>start := z, end' := x, rargname := r, post := ''EQ''\<rparr>] of
         (outs, ins, labelset, scopes) \<Rightarrow> outs = {y} \<and> labelset = {x, z} \<and> scopes = {})"
  proof
    assume h: "x \<noteq> z \<and> p \<noteq> ''EQ'' \<and> p \<noteq> ''H'' \<and> p \<noteq> ''HEQ''"
    let ?ls = "[a\<lparr>start := x, end' := y, rargname := ''ARG1'', post := p\<rparr>,
               b\<lparr>start := z, end' := x, rargname := r, post := ''EQ''\<rparr>]"
    have o: "collectOuts x ?ls = {y}" using h by (auto simp: collectOuts_def)
    have s: "collectScopes x ?ls = {}" using h by (simp add: collectScopes_def)
    have sd: "seedLabels x ?ls = {x, z}" using h by (simp add: seedLabels_def)
    have "fold expandStep ?ls ({x, z}, False) = ({x, z}, False)"
      using h by (simp add: expandStep_def)
    then have "expandLabels ?ls {x, z} = {x, z}" by (subst expandLabels.simps) simp
    then show "case updateHighlights x ?ls of
         (outs, ins, labelset, scopes) \<Rightarrow> outs = {y} \<and> labelset = {x, z} \<and> scopes = {}"
      by (simp add: updateHighlights_def o s sd)
  qed
qed

theorem label_set_closure_witness:
  "''X'' \<noteq> ''Z'' \<and> ''NEQ'' \<noteq> ''EQ'' \<and> ''NEQ'' \<noteq> ''H'' \<and> ''NEQ'' \<noteq> ''HEQ'' \<and>
   (case updateHighlights ''X''
              [d3_link Map.empty (''X'', ''Y'', ''ARG1'', ''NEQ''),
               d3_link Map.empty (''Z'', ''X'', '''', ''EQ'')] of
         (outs, ins, labelset, scopes) \<Rightarrow>
            outs = {''Y''} \<and> labelset = {''X'', ''Z''} \<and> scopes = {})"
proof -
  have h: "''X'' \<noteq> ''Z'' \<and> ''NEQ'' \<noteq> ''EQ'' \<and> ''NEQ'' \<noteq> ''H'' \<and> ''NEQ'' \<noteq> ''HEQ''" by simp
  have l1: "d3_link Map.empty (''X'', ''Y'', ''ARG1'', ''NEQ'') =
      (d3_link Map.empty (''X'', ''Y'', ''ARG1'', ''NEQ''))
        \<lparr>start := ''X'', end' := ''Y'', rargname := ''ARG1'', post := ''NEQ''\<rparr>"
    by (simp add: d3_link_def)
  have l2: "d3_link Map.empty (''Z'', ''X'', '''', ''EQ'') =
      (d3_link Map.empty (''Z'', ''X'', '''', ''EQ''))
        \<lparr>start := ''Z'', end' := ''X'', rargname := '''', post := ''EQ''\<rparr>"
    by (simp add: d3_link_def)
  have "case updateHighlights ''X''
              [(d3_link Map.empty (''X'', ''Y'', ''ARG1'', ''NEQ''))
                 \<lparr>start := ''X'', end' := ''Y'', rargname := ''ARG1'', post := ''NEQ''\<rparr>,
               (d3_link Map.empty (''Z'', ''X'', '''', ''EQ''))
                 \<lparr>start := ''Z'', end' := ''X'', rargname := '''', post := ''EQ''\<rparr>] of
         (outs, ins, labelset, scopes) \<Rightarrow>
            outs = {''Y''} \<and> labelset = {''X'', ''Z''} \<and> scopes = {}"
    by (rule label_set_closure[where nid = "''X''" and ls = "[]" and x = "''X''" and z = "''Z''"
          and p = "''NEQ''" and y = "''Y''" and r = "[]"
          and a = "d3_link Map.empty (''X'', ''Y'', ''ARG1'', ''NEQ'')"
          and b = "d3_link Map.empty (''Z'', ''X'', [], ''EQ'')", THEN conjunct2, THEN mp, OF h])
  then show ?thesis using h l1 l2 by simp
qed

text \<open>
  C10.  After the layout pass \<open>maxTopLevel\<close> is the greatest level of the placed links
  with direction \<open>1\<close>, and 0 when there is none; \<open>maxBottomLevel\<close> is the least level of the
  placed links with direction \<open>- 1\<close>, and 0 when there is none.
\<close>

theorem extremes_attained:
  "\<exists>g'. prepareGraph g = Some (Inr g') \<and>
     (placedLevels 1 g' = [] \<longrightarrow> maxTopLevel g' = 0) \<and>
     (placedLevels 1 g' \<noteq> [] \<longrightarrow> maxTopLevel g' = Max (set (placedLevels 1 g'))) \<and>
     (placedLevels (- 1) g' = [] \<longrightarrow> maxBottomLevel g' = 0) \<and>
     (placedLevels (- 1) g' \<noteq> [] \<longrightarrow> maxBottomLevel g' = Min (set (placedLevels (- 1) g')))"
proof -
  from prepareGraph_facts[of g] obtain g' where p: "prepareGraph g = Some (Inr g')"
    and len: "length (links g') = length (links g)"
    and each: "\<And>i. i < length (links g) \<Longrightarrow> placed (links g' ! i) \<Longrightarrow>
        (\<exists>m\<ge>1. level (links g' ! i) = Some (int m * dir (links g' ! i))) \<and>
        (dir (links g' ! i) = 1 \<or> dir (links g' ! i) = - 1) \<and>
        (dir (links g' ! i) = 1 \<longrightarrow> (\<forall>l. level (links g' ! i) = Some l \<longrightarrow> l \<le> maxTopLevel g')) \<and>
        (dir (links g' ! i) = - 1 \<longrightarrow> (\<forall>l. level (links g' ! i) = Some l \<longrightarrow> maxBottomLevel g' \<le> l))"
    and top: "maxTopLevel g' = 0 \<or>
        (\<exists>i<length (links g). placed (links g' ! i) \<and> dir (links g' ! i) = 1 \<and>
            level (links g' ! i) = Some (maxTopLevel g'))"
    and bot: "maxBottomLevel g' = 0 \<or>
        (\<exists>i<length (links g). placed (links g' ! i) \<and> dir (links g' ! i) = - 1 \<and>
            level (links g' ! i) = Some (maxBottomLevel g'))"
    by blast
  have up: "1 \<le> l \<and> l \<le> maxTopLevel g'" if "l \<in> set (placedLevels 1 g')" for l
  proof -
    from that obtain i where i: "i < length (links g)" "placed (links g' ! i)"
      "dir (links g' ! i) = 1" "level (links g' ! i) = Some l"
      unfolding placedLevels_iff len by blast
    from each[OF i(1,2)] i(3,4) show ?thesis by auto
  qed
  have lo: "maxBottomLevel g' \<le> l \<and> l \<le> - 1" if "l \<in> set (placedLevels (- 1) g')" for l
  proof -
    from that obtain i where i: "i < length (links g)" "placed (links g' ! i)"
      "dir (links g' ! i) = - 1" "level (links g' ! i) = Some l"
      unfolding placedLevels_iff len by blast
    from each[OF i(1,2)] i(3,4) show ?thesis by auto
  qed
  have topin: "maxTopLevel g' = 0 \<or> maxTopLevel g' \<in> set (placedLevels 1 g')"
    using top unfolding placedLevels_iff len by blast
  have botin: "maxBottomLevel g' = 0 \<or> maxBottomLevel g' \<in> set (placedLevels (- 1) g')"
    using bot unfolding placedLevels_iff len by blast
  have t1: "placedLevels 1 g' = [] \<longrightarrow> maxTopLevel g' = 0" using topin by auto
  have t2: "placedLevels 1 g' \<noteq> [] \<longrightarrow> maxTopLevel g' = Max (set (placedLevels 1 g'))"
  proof
    assume ne: "placedLevels 1 g' \<noteq> []"
    then obtain l where l: "l \<in> set (placedLevels 1 g')" by (cases "placedLevels 1 g'") auto
    with up[OF l] topin have "maxTopLevel g' \<in> set (placedLevels 1 g')" by auto
    moreover have "\<forall>x\<in>set (placedLevels 1 g'). x \<le> maxTopLevel g'" using up by blast
    ultimately show "maxTopLevel g' = Max (set (placedLevels 1 g'))"
      by (intro Max_eqI[symmetric]) auto
  qed
  have b1: "placedLevels (- 1) g' = [] \<longrightarrow> maxBottomLevel g' = 0" using botin by auto
  have b2: "placedLevels (- 1) g' \<noteq> [] \<longrightarrow> maxBottomLevel g' = Min (set (placedLevels (- 1) g'))"
  proof
    assume ne: "placedLevels (- 1) g' \<noteq> []"
    then obtain l where l: "l \<in> set (placedLevels (- 1) g')" by (cases "placedLevels (- 1) g'") auto
    with lo[OF l] botin have "maxBottomLevel g' \<in> set (placedLevels (- 1) g')" by auto
    moreover have "\<forall>x\<in>set (placedLevels (- 1) g'). maxBottomLevel g' \<le> x" using lo by blast
    ultimately show "maxBottomLevel g' = Min (set (placedLevels (- 1) g'))"
      by (intro Min_eqI[symmetric]) auto
  qed
  show ?thesis using p t1 t2 b1 b2 by blast
qed

lemma placedLevels_example:
  "placedLevels 1 exampleLayout = [1, 2]" "placedLevels (- 1) exampleLayout = [- 1, - 2]"
  by code_simp+

theorem extremes_attained_witness:
  "prepareGraph exampleGraph = Some (Inr exampleLayout) \<and>
   placedLevels 1 exampleLayout = [1, 2] \<and> maxTopLevel exampleLayout = Max (set [1, 2]) \<and>
   placedLevels (- 1) exampleLayout = [- 1, - 2] \<and> maxBottomLevel exampleLayout = Min (set [- 1, - 2])"
proof -
  from extremes_attained[of exampleGraph] obtain g' where g': "prepareGraph exampleGraph = Some (Inr g')"
    and t: "placedLevels 1 g' \<noteq> [] \<longrightarrow> maxTopLevel g' = Max (set (placedLevels 1 g'))"
    and b: "placedLevels (- 1) g' \<noteq> [] \<longrightarrow> maxBottomLevel g' = Min (set (placedLevels (- 1) g'))"
    by blast
  have eq: "g' = exampleLayout" using g' by (simp add: prepareGraph_example)
  from t b show ?thesis unfolding eq
    using prepareGraph_example by (simp add: placedLevels_example)
qed

end
